theory Spec2Isabelle
  imports Main "HOL-Library.Word" "HOL-Library.Monad_Syntax"
begin

section \<open>Persistent string maps: the tree of string\_map.go\<close>

text \<open>
  The file \<^verbatim>\<open>string_map.go\<close> implements a persistent map from strings to strings as a
  tree of fixed arity whose branches are chosen by successive chunks of a 64-bit hash
  of the key. Three names it uses are declared elsewhere in the package and are taken
  here as parameters of every function that needs them:
  \<^item> \<open>hashKey\<close>, the hash of a key, a function \<open>string \<Rightarrow> 64 word\<close>;
  \<^item> \<open>childCount\<close>, the length of every \<^verbatim>\<open>children\<close> array;
  \<^item> \<open>shiftSize\<close>, the number of hash bits dropped per level.
  The file declares its sentinel as \<^verbatim>\<open>nilStringMap\<close> and refers to it as \<^verbatim>\<open>nilMap\<close>
  everywhere else; both names stand for the one sentinel here.

  Two embeddings are given. The \<^emph>\<open>value model\<close> of this section represents a pointer to
  a node by the tree below it: the sentinel is the constructor \<open>NilMap\<close>, the test
  \<^verbatim>\<open>self == nilMap\<close> is the test for that constructor, and a clone followed by field
  assignments is the construction of a new \<open>Node\<close>. The \<^emph>\<open>store model\<close> of the next
  section keeps the pointers: nodes live in a store at addresses, \<^verbatim>\<open>clone\<close> allocates,
  assignments update a cell. The store model is shown to compute what the value model
  computes (section ``The store model refines to the value model''), and the claim
  about persistence is stated on it.

  A panic is a value of type \<open>error\<close>, returned as \<open>Inl\<close>. Indexing an array out of its
  range is such a panic in Go; the arrays have \<open>childCount\<close> slots, so it does not occur
  for trees whose nodes all have \<open>childCount\<close> children, but the lists of the model reach
  their own length, and the check is written out. \<^verbatim>\<open>count\<close> is a Go \<^verbatim>\<open>int\<close>; it counts
  nodes held in memory and is modelled as an unbounded \<open>int\<close>. \<^verbatim>\<open>lookupLowLevel\<close>
  returns \<^verbatim>\<open>nil\<close> for the value of a key it does not find; as a string this is the
  empty string.
\<close>

datatype error =
    HashCollision string string
  | NoChildren
  | IndexOutOfRange
  | NegativeLen

text \<open>
  Modelled from the spec: the sentinel \<^verbatim>\<open>nilMap\<close>, whose declaration is not in the file
  (the file declares \<^verbatim>\<open>nilStringMap = &StringMap{}\<close> and initialises the children of
  \<^verbatim>\<open>nilMap\<close>). It is a single node with count \<open>0\<close> whose children all refer to itself;
  \<open>NilMap\<close> stands for it, and \<open>Size\<close> reads its count as \<open>0\<close>.
\<close>

datatype StringMap =
    NilMap
  | Node int "64 word" string string "StringMap list"

fun Size :: "StringMap \<Rightarrow> int" where
  "Size NilMap = 0"
| "Size (Node c h k v cs) = c"

definition NewStringMap :: StringMap where
  "NewStringMap = NilMap"

definition IsNil :: "StringMap \<Rightarrow> bool" where
  "IsNil self = (self = NilMap)"

text \<open>
  \<^verbatim>\<open>recalculateCount\<close> sums \<^verbatim>\<open>t.Size()\<close> over the children array in a loop and stores
  the sum plus one. The code calls it on freshly cloned nodes only, never on the
  sentinel.
\<close>

fun recalculateCount :: "StringMap \<Rightarrow> StringMap" where
  "recalculateCount (Node c h k v cs) =
     Node (foldl (\<lambda>count t. count + Size t) 0 cs + 1) h k v cs"
| "recalculateCount NilMap = NilMap"

text \<open>The recursive functions descend into a child; this is what makes them terminate.\<close>

lemma size_nth_children [termination_simp]:
  "i < length cs \<Longrightarrow> size (cs ! i) < Suc (size_list size cs)"
  by (metis less_Suc_eq_le nth_mem size_list_estimation' order_refl)

fun setLowLevel ::
  "nat \<Rightarrow> nat \<Rightarrow> StringMap \<Rightarrow> 64 word \<Rightarrow> 64 word \<Rightarrow> string \<Rightarrow> string \<Rightarrow> error + StringMap" where
  "setLowLevel childCount shiftSize NilMap partialHash hash key value =
     Inr (Node 1 hash key value (replicate childCount NilMap))"
| "setLowLevel childCount shiftSize (Node c h k v cs) partialHash hash key value =
     (if hash \<noteq> h then
        (let i = unat partialHash mod childCount in
         if i < length cs then
           (case setLowLevel childCount shiftSize (cs ! i) (drop_bit shiftSize partialHash) hash key value of
              Inl e \<Rightarrow> Inl e
            | Inr child \<Rightarrow> Inr (recalculateCount (Node c h k v (cs[i := child]))))
         else Inl IndexOutOfRange)
      else if key \<noteq> k then Inl (HashCollision k key)
      else Inr (Node c h k value cs))"

fun lookupLowLevel :: "nat \<Rightarrow> nat \<Rightarrow> StringMap \<Rightarrow> 64 word \<Rightarrow> 64 word \<Rightarrow> error + string \<times> bool" where
  "lookupLowLevel childCount shiftSize NilMap partialHash hash = Inr ([], False)"
| "lookupLowLevel childCount shiftSize (Node c h k v cs) partialHash hash =
     (if hash \<noteq> h then
        (let i = unat partialHash mod childCount in
         if i < length cs then
           lookupLowLevel childCount shiftSize (cs ! i) (drop_bit shiftSize partialHash) hash
         else Inl IndexOutOfRange)
      else Inr (v, True))"

text \<open>
  \<^verbatim>\<open>deleteLeftmost\<close>: \<open>firstChild\<close> is the loop that scans the children in slot order for
  the first one that is not the sentinel; when there is none, the code panics. On the
  sentinel itself the count is \<open>0\<close>, so it is not a leaf, and all its children are the
  sentinel: the code reaches the same panic.
\<close>

definition isLeaf :: "StringMap \<Rightarrow> bool" where
  "isLeaf m = (Size m = 1)"

fun firstChild :: "StringMap list \<Rightarrow> nat option" where
  "firstChild [] = None"
| "firstChild (t # ts) = (if t \<noteq> NilMap then Some 0 else map_option Suc (firstChild ts))"

lemma firstChild_less: "firstChild cs = Some i \<Longrightarrow> i < length cs"
  by (induction cs arbitrary: i) (auto split: if_splits)

lemma size_firstChild [termination_simp]:
  "firstChild cs = Some i \<Longrightarrow> size (cs ! i) < Suc (size_list size cs)"
  by (simp add: firstChild_less size_nth_children)

fun deleteLeftmost :: "StringMap \<Rightarrow> error + StringMap \<times> StringMap" where
  "deleteLeftmost NilMap = Inl NoChildren"
| "deleteLeftmost (Node c h k v cs) =
     (if isLeaf (Node c h k v cs) then Inr (Node c h k v cs, NilMap)
      else
        (case firstChild cs of
           None \<Rightarrow> Inl NoChildren
         | Some i \<Rightarrow>
             (case deleteLeftmost (cs ! i) of
                Inl e \<Rightarrow> Inl e
              | Inr (deleted, child) \<Rightarrow>
                  Inr (deleted, recalculateCount (Node c h k v (cs[i := child]))))))"

text \<open>
  \<^verbatim>\<open>deleteLowLevel\<close>: \<open>largestChild\<close> is the loop that looks for the child of largest
  \<^verbatim>\<open>Size\<close>, started with \<^verbatim>\<open>i = -1\<close> and \<^verbatim>\<open>size = -1\<close>; the index \<open>j\<close> counts the slots.
  \<open>replaceChildren\<close> is the clone of the replacement node whose children are then all
  overwritten, slot \<open>i\<close> by what is left of the chosen child and the others by the
  children of the deleted node. The result also tells whether the hash was found.
\<close>

fun largestChild :: "StringMap list \<Rightarrow> nat \<Rightarrow> int \<times> int \<Rightarrow> int \<times> int" where
  "largestChild [] j (i, sz) = (i, sz)"
| "largestChild (t # ts) j (i, sz) =
     (if Size t > sz then largestChild ts (Suc j) (int j, Size t)
      else largestChild ts (Suc j) (i, sz))"

fun replaceChildren :: "StringMap \<Rightarrow> StringMap list \<Rightarrow> StringMap" where
  "replaceChildren (Node c h k v cs) cs' = Node c h k v cs'"
| "replaceChildren NilMap cs' = Node 0 0 [] [] cs'"

fun deleteLowLevel ::
  "nat \<Rightarrow> nat \<Rightarrow> StringMap \<Rightarrow> 64 word \<Rightarrow> 64 word \<Rightarrow> error + StringMap \<times> bool" where
  "deleteLowLevel childCount shiftSize NilMap partialHash hash = Inr (NilMap, False)"
| "deleteLowLevel childCount shiftSize (Node c h k v cs) partialHash hash =
     (if hash \<noteq> h then
        (let i = unat partialHash mod childCount in
         if i < length cs then
           (case deleteLowLevel childCount shiftSize (cs ! i) (drop_bit shiftSize partialHash) hash of
              Inl e \<Rightarrow> Inl e
            | Inr (child, found) \<Rightarrow>
                if \<not> found then Inr (Node c h k v cs, False)
                else Inr (recalculateCount (Node c h k v (cs[i := child])), True))
         else Inl IndexOutOfRange)
      else if isLeaf (Node c h k v cs) then Inr (NilMap, True)
      else
        (let i = fst (largestChild cs 0 (- 1, - 1)) in
         if 0 \<le> i \<and> nat i < length cs then
           (case deleteLeftmost (cs ! nat i) of
              Inl e \<Rightarrow> Inl e
            | Inr (replacement, child) \<Rightarrow>
                Inr (recalculateCount (replaceChildren replacement (cs[nat i := child])), True))
         else Inl IndexOutOfRange))"

text \<open>
  \<^verbatim>\<open>ForEach\<close> calls \<open>f\<close> for its effect; the callback is modelled as a function on a state
  \<open>'s\<close> that may panic. \<^verbatim>\<open>Keys\<close> passes a closure that writes the key into the slice
  \<^verbatim>\<open>keys\<close>, made with length \<^verbatim>\<open>m.Size()\<close>, at index \<^verbatim>\<open>i\<close> and increments \<^verbatim>\<open>i\<close>: its state
  is the pair of the slice and the index.
\<close>

fun ForEach :: "StringMap \<Rightarrow> (string \<Rightarrow> string \<Rightarrow> 's \<Rightarrow> error + 's) \<Rightarrow> 's \<Rightarrow> error + 's"
  and forEachChildren ::
    "StringMap list \<Rightarrow> (string \<Rightarrow> string \<Rightarrow> 's \<Rightarrow> error + 's) \<Rightarrow> 's \<Rightarrow> error + 's" where
  "ForEach NilMap f s = Inr s"
| "ForEach (Node c h k v cs) f s =
     (case f k v s of Inl e \<Rightarrow> Inl e | Inr s' \<Rightarrow> forEachChildren cs f s')"
| "forEachChildren [] f s = Inr s"
| "forEachChildren (t # ts) f s =
     (if t \<noteq> NilMap then
        (case ForEach t f s of Inl e \<Rightarrow> Inl e | Inr s' \<Rightarrow> forEachChildren ts f s')
      else forEachChildren ts f s)"

definition Keys :: "StringMap \<Rightarrow> error + string list" where
  "Keys m =
     (if Size m < 0 then Inl NegativeLen
      else
        (case ForEach m
                (\<lambda>k v (keys, i).
                   if i < length keys then Inr (keys[i := k], Suc i) else Inl IndexOutOfRange)
                (replicate (nat (Size m)) [], 0) of
           Inl e \<Rightarrow> Inl e
         | Inr (keys, i) \<Rightarrow> Inr keys))"

definition Set ::
  "(string \<Rightarrow> 64 word) \<Rightarrow> nat \<Rightarrow> nat \<Rightarrow> StringMap \<Rightarrow> string \<Rightarrow> string \<Rightarrow> error + StringMap" where
  "Set hashKey childCount shiftSize self key value =
     (let hash = hashKey key in setLowLevel childCount shiftSize self hash hash key value)"

definition Delete ::
  "(string \<Rightarrow> 64 word) \<Rightarrow> nat \<Rightarrow> nat \<Rightarrow> StringMap \<Rightarrow> string \<Rightarrow> error + StringMap" where
  "Delete hashKey childCount shiftSize m key =
     (let hash = hashKey key in
      case deleteLowLevel childCount shiftSize m hash hash of
        Inl e \<Rightarrow> Inl e
      | Inr (newMap, _) \<Rightarrow> Inr newMap)"

definition Lookup ::
  "(string \<Rightarrow> 64 word) \<Rightarrow> nat \<Rightarrow> nat \<Rightarrow> StringMap \<Rightarrow> string \<Rightarrow> error + string \<times> bool" where
  "Lookup hashKey childCount shiftSize m key =
     (let hash = hashKey key in lookupLowLevel childCount shiftSize m hash hash)"

text \<open>
  A map built from the empty map by \<^verbatim>\<open>Set\<close> and \<^verbatim>\<open>Delete\<close> is the result of running a
  list of operations, each on the map the previous one returned.
\<close>

datatype operation = OpSet string string | OpDelete string

fun runOps ::
  "(string \<Rightarrow> 64 word) \<Rightarrow> nat \<Rightarrow> nat \<Rightarrow> StringMap \<Rightarrow> operation list \<Rightarrow> error + StringMap" where
  "runOps hashKey childCount shiftSize m [] = Inr m"
| "runOps hashKey childCount shiftSize m (OpSet k v # ops) =
     (case Set hashKey childCount shiftSize m k v of
        Inl e \<Rightarrow> Inl e
      | Inr m' \<Rightarrow> runOps hashKey childCount shiftSize m' ops)"
| "runOps hashKey childCount shiftSize m (OpDelete k # ops) =
     (case Delete hashKey childCount shiftSize m k of
        Inl e \<Rightarrow> Inl e
      | Inr m' \<Rightarrow> runOps hashKey childCount shiftSize m' ops)"

section \<open>The store model\<close>

text \<open>
  A store is a list of nodes, an address is an index into it. The sentinel \<^verbatim>\<open>nilMap\<close> is
  the node at address \<open>0\<close>; after \<^verbatim>\<open>init\<close> all its children point to itself
  (\<open>initHeap\<close>). \<^verbatim>\<open>clone\<close> appends a copy of a node and returns its address. Every
  function takes the store and, when it allocates or assigns, returns the new one.
  Recursion follows the pointers of the store, which need not be well-founded in an
  arbitrary store: the recursive functions return an option, \<open>None\<close> standing for a
  computation that does not return.
\<close>

type_synonym ref = nat

record node =
  node_count :: int
  node_hash :: "64 word"
  node_key :: string
  node_value :: string
  node_children :: "ref list"

type_synonym heap = "node list"

text \<open>
  Modelled from the spec: the sentinel \<^verbatim>\<open>nilMap\<close>, whose declaration is not in the file; it
  is the node with zero fields (\<^verbatim>\<open>&StringMap{}\<close>) at address \<open>0\<close>, and \<^verbatim>\<open>init\<close> makes each of
  its children refer to it.
\<close>

definition nilMap :: ref where
  "nilMap = 0"

definition initHeap :: "nat \<Rightarrow> heap" where
  "initHeap childCount =
     [\<lparr>node_count = 0, node_hash = 0, node_key = [], node_value = [],
       node_children = replicate childCount nilMap\<rparr>]"

definition NewStringMapH :: ref where
  "NewStringMapH = nilMap"

definition IsNilH :: "ref \<Rightarrow> bool" where
  "IsNilH self = (self = nilMap)"

definition cloneH :: "heap \<Rightarrow> ref \<Rightarrow> heap \<times> ref" where
  "cloneH hp self = (hp @ [hp ! self], length hp)"

definition SizeH :: "heap \<Rightarrow> ref \<Rightarrow> int" where
  "SizeH hp m = node_count (hp ! m)"

definition recalculateCountH :: "heap \<Rightarrow> ref \<Rightarrow> heap" where
  "recalculateCountH hp m =
     hp[m := (hp ! m)\<lparr>node_count :=
          foldl (\<lambda>count t. count + SizeH hp t) 0 (node_children (hp ! m)) + 1\<rparr>]"

partial_function (option) setLowLevelH ::
  "nat \<Rightarrow> nat \<Rightarrow> heap \<Rightarrow> ref \<Rightarrow> 64 word \<Rightarrow> 64 word \<Rightarrow> string \<Rightarrow> string \<Rightarrow>
   (error + heap \<times> ref) option" where
  "setLowLevelH childCount shiftSize hp self partialHash hash key value =
     (if IsNilH self then
        (let (hp1, m) = cloneH hp self;
             hp2 = hp1[m := (hp1 ! m)\<lparr>node_count := 1, node_hash := hash,
                                        node_key := key, node_value := value\<rparr>]
         in Some (Inr (hp2, m)))
      else if hash \<noteq> node_hash (hp ! self) then
        (let (hp1, m) = cloneH hp self;
             i = unat partialHash mod childCount
         in if i < length (node_children (hp1 ! self)) \<and> i < length (node_children (hp1 ! m)) then
              do {
                r \<leftarrow> setLowLevelH childCount shiftSize hp1 (node_children (hp1 ! self) ! i)
                       (drop_bit shiftSize partialHash) hash key value;
                (case r of
                   Inl e \<Rightarrow> Some (Inl e)
                 | Inr (hp2, child) \<Rightarrow>
                     (let hp3 = hp2[m := (hp2 ! m)\<lparr>node_children :=
                                     (node_children (hp2 ! m))[i := child]\<rparr>]
                      in Some (Inr (recalculateCountH hp3 m, m))))
              }
            else Some (Inl IndexOutOfRange))
      else if key \<noteq> node_key (hp ! self) then
        Some (Inl (HashCollision (node_key (hp ! self)) key))
      else
        (let (hp1, m) = cloneH hp self
         in Some (Inr (hp1[m := (hp1 ! m)\<lparr>node_value := value\<rparr>], m))))"

partial_function (option) lookupLowLevelH ::
  "nat \<Rightarrow> nat \<Rightarrow> heap \<Rightarrow> ref \<Rightarrow> 64 word \<Rightarrow> 64 word \<Rightarrow> (error + string \<times> bool) option" where
  "lookupLowLevelH childCount shiftSize hp self partialHash hash =
     (if IsNilH self then Some (Inr ([], False))
      else if hash \<noteq> node_hash (hp ! self) then
        (let i = unat partialHash mod childCount
         in if i < length (node_children (hp ! self)) then
              lookupLowLevelH childCount shiftSize hp (node_children (hp ! self) ! i)
                (drop_bit shiftSize partialHash) hash
            else Some (Inl IndexOutOfRange))
      else Some (Inr (node_value (hp ! self), True)))"

definition isLeafH :: "heap \<Rightarrow> ref \<Rightarrow> bool" where
  "isLeafH hp m = (SizeH hp m = 1)"

fun firstChildH :: "ref list \<Rightarrow> nat option" where
  "firstChildH [] = None"
| "firstChildH (t # ts) = (if t \<noteq> nilMap then Some 0 else map_option Suc (firstChildH ts))"

partial_function (option) deleteLeftmostH ::
  "heap \<Rightarrow> ref \<Rightarrow> (error + heap \<times> ref \<times> ref) option" where
  "deleteLeftmostH hp m =
     (if isLeafH hp m then Some (Inr (hp, m, nilMap))
      else
        (case firstChildH (node_children (hp ! m)) of
           None \<Rightarrow> Some (Inl NoChildren)
         | Some i \<Rightarrow>
             do {
               r \<leftarrow> deleteLeftmostH hp (node_children (hp ! m) ! i);
               (case r of
                  Inl e \<Rightarrow> Some (Inl e)
                | Inr (hp1, deleted, child) \<Rightarrow>
                    (let (hp2, newMap) = cloneH hp1 m;
                         hp3 = hp2[newMap := (hp2 ! newMap)\<lparr>node_children :=
                                     (node_children (hp2 ! newMap))[i := child]\<rparr>]
                     in Some (Inr (recalculateCountH hp3 newMap, deleted, newMap))))
             }))"

fun largestChildH :: "heap \<Rightarrow> ref list \<Rightarrow> nat \<Rightarrow> int \<times> int \<Rightarrow> int \<times> int" where
  "largestChildH hp [] j (i, sz) = (i, sz)"
| "largestChildH hp (t # ts) j (i, sz) =
     (if SizeH hp t > sz then largestChildH hp ts (Suc j) (int j, SizeH hp t)
      else largestChildH hp ts (Suc j) (i, sz))"

partial_function (option) deleteLowLevelH ::
  "nat \<Rightarrow> nat \<Rightarrow> heap \<Rightarrow> ref \<Rightarrow> 64 word \<Rightarrow> 64 word \<Rightarrow> (error + heap \<times> ref \<times> bool) option" where
  "deleteLowLevelH childCount shiftSize hp self partialHash hash =
     (if IsNilH self then Some (Inr (hp, self, False))
      else if hash \<noteq> node_hash (hp ! self) then
        (let i = unat partialHash mod childCount
         in if i < length (node_children (hp ! self)) then
              do {
                r \<leftarrow> deleteLowLevelH childCount shiftSize hp (node_children (hp ! self) ! i)
                       (drop_bit shiftSize partialHash) hash;
                (case r of
                   Inl e \<Rightarrow> Some (Inl e)
                 | Inr (hp1, child, found) \<Rightarrow>
                     if \<not> found then Some (Inr (hp1, self, False))
                     else
                       (let (hp2, newMap) = cloneH hp1 self;
                            hp3 = hp2[newMap := (hp2 ! newMap)\<lparr>node_children :=
                                        (node_children (hp2 ! newMap))[i := child]\<rparr>]
                        in Some (Inr (recalculateCountH hp3 newMap, newMap, True))))
              }
            else Some (Inl IndexOutOfRange))
      else if isLeafH hp self then Some (Inr (hp, nilMap, True))
      else
        (let i = fst (largestChildH hp (node_children (hp ! self)) 0 (- 1, - 1))
         in if 0 \<le> i \<and> nat i < length (node_children (hp ! self)) then
              do {
                r \<leftarrow> deleteLeftmostH hp (node_children (hp ! self) ! nat i);
                (case r of
                   Inl e \<Rightarrow> Some (Inl e)
                 | Inr (hp1, replacement, child) \<Rightarrow>
                     (let (hp2, newMap) = cloneH hp1 replacement;
                          hp3 = hp2[newMap := (hp2 ! newMap)\<lparr>node_children :=
                                      (node_children (hp2 ! self))[nat i := child]\<rparr>]
                      in Some (Inr (recalculateCountH hp3 newMap, newMap, True))))
              }
            else Some (Inl IndexOutOfRange)))"

partial_function (option) forEachChildrenH ::
  "heap \<Rightarrow> (string \<Rightarrow> string \<Rightarrow> 's \<Rightarrow> error + 's) \<Rightarrow> ref \<Rightarrow> nat \<Rightarrow> 's \<Rightarrow> (error + 's) option" where
  "forEachChildrenH hp f m i s =
     (if i < length (node_children (hp ! m)) then
        (let t = node_children (hp ! m) ! i
         in if t \<noteq> nilMap then
              (case f (node_key (hp ! t)) (node_value (hp ! t)) s of
                 Inl e \<Rightarrow> Some (Inl e)
               | Inr s1 \<Rightarrow>
                   do {
                     r \<leftarrow> forEachChildrenH hp f t 0 s1;
                     (case r of
                        Inl e \<Rightarrow> Some (Inl e)
                      | Inr s2 \<Rightarrow> forEachChildrenH hp f m (Suc i) s2)
                   })
            else forEachChildrenH hp f m (Suc i) s)
      else Some (Inr s))"

definition ForEachH ::
  "heap \<Rightarrow> ref \<Rightarrow> (string \<Rightarrow> string \<Rightarrow> 's \<Rightarrow> error + 's) \<Rightarrow> 's \<Rightarrow> (error + 's) option" where
  "ForEachH hp m f s =
     (if IsNilH m then Some (Inr s)
      else
        (case f (node_key (hp ! m)) (node_value (hp ! m)) s of
           Inl e \<Rightarrow> Some (Inl e)
         | Inr s1 \<Rightarrow> forEachChildrenH hp f m 0 s1))"

definition KeysH :: "heap \<Rightarrow> ref \<Rightarrow> (error + string list) option" where
  "KeysH hp m =
     (if SizeH hp m < 0 then Some (Inl NegativeLen)
      else
        do {
          r \<leftarrow> ForEachH hp m
                 (\<lambda>k v (keys, i).
                    if i < length keys then Inr (keys[i := k], Suc i) else Inl IndexOutOfRange)
                 (replicate (nat (SizeH hp m)) [], 0);
          (case r of Inl e \<Rightarrow> Some (Inl e) | Inr (keys, i) \<Rightarrow> Some (Inr keys))
        })"

definition SetH ::
  "(string \<Rightarrow> 64 word) \<Rightarrow> nat \<Rightarrow> nat \<Rightarrow> heap \<Rightarrow> ref \<Rightarrow> string \<Rightarrow> string \<Rightarrow>
   (error + heap \<times> ref) option" where
  "SetH hashKey childCount shiftSize hp self key value =
     (let hash = hashKey key in setLowLevelH childCount shiftSize hp self hash hash key value)"

definition DeleteH ::
  "(string \<Rightarrow> 64 word) \<Rightarrow> nat \<Rightarrow> nat \<Rightarrow> heap \<Rightarrow> ref \<Rightarrow> string \<Rightarrow> (error + heap \<times> ref) option" where
  "DeleteH hashKey childCount shiftSize hp m key =
     (let hash = hashKey key in
      do {
        r \<leftarrow> deleteLowLevelH childCount shiftSize hp m hash hash;
        (case r of Inl e \<Rightarrow> Some (Inl e) | Inr (hp1, newMap, _) \<Rightarrow> Some (Inr (hp1, newMap)))
      })"

definition LookupH ::
  "(string \<Rightarrow> 64 word) \<Rightarrow> nat \<Rightarrow> nat \<Rightarrow> heap \<Rightarrow> ref \<Rightarrow> string \<Rightarrow> (error + string \<times> bool) option" where
  "LookupH hashKey childCount shiftSize hp m key =
     (let hash = hashKey key in lookupLowLevelH childCount shiftSize hp m hash hash)"

declare setLowLevelH.simps [code] lookupLowLevelH.simps [code] deleteLeftmostH.simps [code]
  deleteLowLevelH.simps [code] forEachChildrenH.simps [code]

fun runOpsH ::
  "(string \<Rightarrow> 64 word) \<Rightarrow> nat \<Rightarrow> nat \<Rightarrow> heap \<Rightarrow> ref \<Rightarrow> operation list \<Rightarrow>
   (error + heap \<times> ref) option" where
  "runOpsH hashKey childCount shiftSize hp m [] = Some (Inr (hp, m))"
| "runOpsH hashKey childCount shiftSize hp m (OpSet k v # ops) =
     (case SetH hashKey childCount shiftSize hp m k v of
        None \<Rightarrow> None
      | Some (Inl e) \<Rightarrow> Some (Inl e)
      | Some (Inr (hp', m')) \<Rightarrow> runOpsH hashKey childCount shiftSize hp' m' ops)"
| "runOpsH hashKey childCount shiftSize hp m (OpDelete k # ops) =
     (case DeleteH hashKey childCount shiftSize hp m k of
        None \<Rightarrow> None
      | Some (Inl e) \<Rightarrow> Some (Inl e)
      | Some (Inr (hp', m')) \<Rightarrow> runOpsH hashKey childCount shiftSize hp' m' ops)"

section \<open>Abstraction and invariants\<close>

text \<open>
  \<open>nodes\<close> lists the stored hash, key and value of every node of a tree in the order
  \<open>ForEach\<close> visits them. \<open>slot\<close> is the child index that the hash \<open>h\<close> selects at depth
  \<open>d\<close>. \<open>invar\<close> is the invariant of the trees the operations build: arrays of
  \<open>childCount\<close> children, the stored hash is the hash of the stored key, the count is one
  plus the counts of the children, no hash occurs twice, and every node below child
  \<open>i\<close> of a node at depth \<open>d\<close> has a hash that selects \<open>i\<close> at depth \<open>d\<close>. \<open>foldE\<close> applies
  a callback to a list of pairs and stops at the first panic. \<open>rep\<close> relates an address
  of a store to the tree it is the root of, all of whose nodes lie in the set \<open>A\<close> of
  addresses.
\<close>

fun nodes :: "StringMap \<Rightarrow> (64 word \<times> string \<times> string) list" where
  "nodes NilMap = []"
| "nodes (Node c h k v cs) = (h, k, v) # concat (map nodes cs)"

definition hashes :: "StringMap \<Rightarrow> 64 word set" where
  "hashes t = fst ` set (nodes t)"

definition slot :: "nat \<Rightarrow> nat \<Rightarrow> nat \<Rightarrow> 64 word \<Rightarrow> nat" where
  "slot childCount shiftSize d h = unat (drop_bit (d * shiftSize) h) mod childCount"

fun invar :: "(string \<Rightarrow> 64 word) \<Rightarrow> nat \<Rightarrow> nat \<Rightarrow> nat \<Rightarrow> StringMap \<Rightarrow> bool" where
  "invar hashKey childCount shiftSize d NilMap = True"
| "invar hashKey childCount shiftSize d (Node c h k v cs) =
     (length cs = childCount \<and> h = hashKey k \<and> c = 1 + sum_list (map Size cs) \<and>
      (\<forall>i<length cs.
         h \<notin> hashes (cs ! i) \<and>
         (\<forall>h'\<in>hashes (cs ! i). slot childCount shiftSize d h' = i) \<and>
         invar hashKey childCount shiftSize (Suc d) (cs ! i)))"

fun foldE :: "(string \<Rightarrow> string \<Rightarrow> 's \<Rightarrow> error + 's) \<Rightarrow> (string \<times> string) list \<Rightarrow> 's \<Rightarrow> error + 's" where
  "foldE f [] s = Inr s"
| "foldE f ((k, v) # xs) s = (case f k v s of Inl e \<Rightarrow> Inl e | Inr s' \<Rightarrow> foldE f xs s')"

definition valueOf :: "StringMap \<Rightarrow> 64 word \<Rightarrow> string option" where
  "valueOf t hash = map_of (map (\<lambda>(h, k, v). (h, v)) (nodes t)) hash"

fun countInv :: "StringMap \<Rightarrow> bool" where
  "countInv NilMap = True"
| "countInv (Node c h k v cs) = (c = 1 + sum_list (map Size cs) \<and> (\<forall>t\<in>set cs. countInv t))"

definition keysOf :: "StringMap \<Rightarrow> string list" where
  "keysOf t = map (\<lambda>(h, k, v). k) (nodes t)"

definition sentinelOK :: "nat \<Rightarrow> heap \<Rightarrow> bool" where
  "sentinelOK childCount hp =
     (0 < length hp \<and>
      hp ! nilMap = \<lparr>node_count = 0, node_hash = 0, node_key = [], node_value = [],
                     node_children = replicate childCount nilMap\<rparr>)"

fun rep :: "nat \<Rightarrow> heap \<Rightarrow> ref set \<Rightarrow> ref \<Rightarrow> StringMap \<Rightarrow> bool" where
  "rep childCount hp A a NilMap = (a = nilMap)"
| "rep childCount hp A a (Node c h k v cs) =
     (a \<noteq> nilMap \<and> a \<in> A \<and> a < length hp \<and>
      node_count (hp ! a) = c \<and> node_hash (hp ! a) = h \<and>
      node_key (hp ! a) = k \<and> node_value (hp ! a) = v \<and>
      length cs = childCount \<and> length (node_children (hp ! a)) = childCount \<and>
      (\<forall>i<length cs. rep childCount hp A (node_children (hp ! a) ! i) (cs ! i)))"

fun height :: "StringMap \<Rightarrow> nat" where
  "height NilMap = 0"
| "height (Node c h k v cs) = Suc (foldr max (map height cs) 0)"

definition extends :: "heap \<Rightarrow> heap \<Rightarrow> bool" where
  "extends hp hp' = (length hp \<le> length hp' \<and> (\<forall>b<length hp. hp' ! b = hp ! b))"

section \<open>Example data\<close>

text \<open>
  A sample hash (the sum of the character codes, so that \<open>''ab''\<close> and \<open>''ba''\<close> collide),
  used with four children per node and two bits per level.
\<close>

definition sampleHashKey :: "string \<Rightarrow> 64 word" where
  "sampleHashKey s = word_of_nat (sum_list (map of_char s))"

definition exampleOps :: "operation list" where
  "exampleOps =
     [OpSet ''a'' ''1'', OpSet ''b'' ''2'', OpSet ''c'' ''3'', OpSet ''e'' ''5'', OpSet ''i'' ''9'']"

definition exampleMap :: StringMap where
  "exampleMap =
     Node 5 97 ''a'' ''1''
       [NilMap,
        Node 2 101 ''e'' ''5''
          [NilMap, NilMap, Node 1 105 ''i'' ''9'' [NilMap, NilMap, NilMap, NilMap], NilMap],
        Node 1 98 ''b'' ''2'' [NilMap, NilMap, NilMap, NilMap],
        Node 1 99 ''c'' ''3'' [NilMap, NilMap, NilMap, NilMap]]"

definition exampleMapAB :: StringMap where
  "exampleMapAB = Node 1 195 ''ab'' ''x'' [NilMap, NilMap, NilMap, NilMap]"

definition exampleMapSix :: StringMap where
  "exampleMapSix =
     Node 6 97 ''a'' ''1''
       [NilMap,
        Node 2 101 ''e'' ''5''
          [NilMap, NilMap, Node 1 105 ''i'' ''9'' [NilMap, NilMap, NilMap, NilMap], NilMap],
        Node 1 98 ''b'' ''2'' [NilMap, NilMap, NilMap, NilMap],
        Node 2 99 ''c'' ''3''
          [Node 1 195 ''ab'' ''x'' [NilMap, NilMap, NilMap, NilMap], NilMap, NilMap, NilMap]]"

definition exampleMapDeleted :: StringMap where
  "exampleMapDeleted =
     Node 4 105 ''i'' ''9''
       [NilMap,
        Node 1 101 ''e'' ''5'' [NilMap, NilMap, NilMap, NilMap],
        Node 1 98 ''b'' ''2'' [NilMap, NilMap, NilMap, NilMap],
        Node 1 99 ''c'' ''3'' [NilMap, NilMap, NilMap, NilMap]]"

definition exampleHeap :: heap where
  "exampleHeap =
     [\<lparr>node_count = 0, node_hash = 0, node_key = [], node_value = [],
        node_children = [0, 0, 0, 0]\<rparr>,
      \<lparr>node_count = 1, node_hash = 97, node_key = ''a'', node_value = ''1'',
        node_children = [0, 0, 0, 0]\<rparr>,
      \<lparr>node_count = 2, node_hash = 97, node_key = ''a'', node_value = ''1'',
        node_children = [0, 3, 0, 0]\<rparr>,
      \<lparr>node_count = 1, node_hash = 101, node_key = ''e'', node_value = ''5'',
        node_children = [0, 0, 0, 0]\<rparr>,
      \<lparr>node_count = 3, node_hash = 97, node_key = ''a'', node_value = ''1'',
        node_children = [0, 5, 0, 0]\<rparr>,
      \<lparr>node_count = 2, node_hash = 101, node_key = ''e'', node_value = ''5'',
        node_children = [0, 0, 6, 0]\<rparr>,
      \<lparr>node_count = 1, node_hash = 105, node_key = ''i'', node_value = ''9'',
        node_children = [0, 0, 0, 0]\<rparr>]"

definition exampleHeapDeleted :: heap where
  "exampleHeapDeleted =
     exampleHeap @
     [\<lparr>node_count = 1, node_hash = 101, node_key = ''e'', node_value = ''5'',
        node_children = [0, 0, 0, 0]\<rparr>,
      \<lparr>node_count = 2, node_hash = 105, node_key = ''i'', node_value = ''9'',
        node_children = [0, 7, 0, 0]\<rparr>]"

definition exampleHeapSet :: heap where
  "exampleHeapSet =
     exampleHeap @
     [\<lparr>node_count = 4, node_hash = 97, node_key = ''a'', node_value = ''1'',
        node_children = [0, 8, 0, 0]\<rparr>,
      \<lparr>node_count = 3, node_hash = 101, node_key = ''e'', node_value = ''5'',
        node_children = [0, 0, 6, 9]\<rparr>,
      \<lparr>node_count = 1, node_hash = 109, node_key = ''m'', node_value = ''13'',
        node_children = [0, 0, 0, 0]\<rparr>]"

definition exampleTree :: StringMap where
  "exampleTree =
     Node 3 97 ''a'' ''1''
       [NilMap,
        Node 2 101 ''e'' ''5''
          [NilMap, NilMap, Node 1 105 ''i'' ''9'' [NilMap, NilMap, NilMap, NilMap], NilMap],
        NilMap, NilMap]"

section \<open>Auxiliary lemmas\<close>

lemma foldl_Size: "foldl (\<lambda>count t. count + Size t) a cs = a + sum_list (map Size cs)"
  by (induction cs arbitrary: a) auto

lemma recalculateCount_Node [simp]:
  "recalculateCount (Node c h k v cs) = Node (1 + sum_list (map Size cs)) h k v cs"
  by (simp add: foldl_Size)

declare recalculateCount.simps(1) [simp del]

lemma foldE_append:
  "foldE f (xs @ ys) s = (case foldE f xs s of Inl e \<Rightarrow> Inl e | Inr s' \<Rightarrow> foldE f ys s')"
  by (induction xs arbitrary: s) (auto split: sum.splits)

lemma ForEach_foldE:
  "ForEach m f s = foldE f (map snd (nodes m)) s"
  "forEachChildren cs f s = foldE f (map snd (concat (map nodes cs))) s"
  by (induction m f s and cs f s rule: ForEach_forEachChildren.induct)
     (auto simp: foldE_append split: sum.splits)

lemma lookup_setLowLevel:
  "setLowLevel cc ss t ph hash key value = Inr t' \<Longrightarrow>
   lookupLowLevel cc ss t' ph hash = Inr (value, True)"
proof (induction cc ss t ph hash key "value" arbitrary: t' rule: setLowLevel.induct)
  case (1 cc ss ph hash key val)
  then show ?case by auto
next
  case (2 cc ss c h k v cs ph hash key val)
  show ?case
  proof (cases "hash = h")
    case True
    with "2.prems" show ?thesis by (auto split: if_splits)
  next
    case False
    let ?i = "unat ph mod cc"
    from False "2.prems" have i: "?i < length cs"
      by (auto simp: Let_def split: if_splits)
    from False "2.prems" i obtain child where
      child: "setLowLevel cc ss (cs ! ?i) (drop_bit ss ph) hash key val = Inr child"
      and t': "t' = Node (1 + sum_list (map Size (cs[?i := child]))) h k v (cs[?i := child])"
      by (auto simp: Let_def split: sum.splits)
    from "2.IH" [OF False refl i child]
    have "lookupLowLevel cc ss child (drop_bit ss ph) hash = Inr (val, True)" .
    with False i show ?thesis by (simp add: t' Let_def)
  qed
qed

lemma nodes_children_split:
  assumes "i < length cs"
  shows "concat (map nodes cs) =
         concat (map nodes (take i cs)) @ nodes (cs ! i) @ concat (map nodes (drop (Suc i) cs))"
proof -
  have "cs = take i cs @ cs ! i # drop (Suc i) cs"
    using assms by (rule id_take_nth_drop)
  then have "concat (map nodes cs) = concat (map nodes (take i cs @ cs ! i # drop (Suc i) cs))"
    by simp
  then show ?thesis by simp
qed

lemma nodes_children_update:
  assumes "i < length cs"
  shows "concat (map nodes (cs[i := x])) =
         concat (map nodes (take i cs)) @ nodes x @ concat (map nodes (drop (Suc i) cs))"
  using assms by (simp add: upd_conv_take_nth_drop)

lemma Size_children_update:
  assumes "i < length cs"
  shows "sum_list (map Size (cs[i := x])) = sum_list (map Size cs) - Size (cs ! i) + Size x"
proof -
  have "cs = take i cs @ cs ! i # drop (Suc i) cs"
    using assms by (rule id_take_nth_drop)
  then have "sum_list (map Size cs) =
      sum_list (map Size (take i cs)) + Size (cs ! i) + sum_list (map Size (drop (Suc i) cs))"
    by (metis append_Cons append_Nil map_append sum_list.Cons sum_list.append add.assoc list.simps(9))
  then show ?thesis using assms by (simp add: upd_conv_take_nth_drop)
qed

lemma nodes_take_slot:
  assumes "\<forall>j<length cs. \<forall>h'\<in>hashes (cs ! j). slot cc ss d h' = j"
    and "n \<in> set (concat (map nodes (take i cs)))"
  shows "slot cc ss d (fst n) < i \<and> slot cc ss d (fst n) < length cs"
proof -
  from assms(2) obtain t where t: "t \<in> set (take i cs)" and n: "n \<in> set (nodes t)" by auto
  from t obtain j where j: "j < length (take i cs)" and tj: "t = take i cs ! j"
    by (auto simp: in_set_conv_nth)
  then have "j < i" "j < length cs" "t = cs ! j" by auto
  with assms(1) n show ?thesis by (auto simp: hashes_def)
qed

lemma nodes_drop_slot:
  assumes "\<forall>j<length cs. \<forall>h'\<in>hashes (cs ! j). slot cc ss d h' = j"
    and "n \<in> set (concat (map nodes (drop (Suc i) cs)))"
  shows "i < slot cc ss d (fst n) \<and> slot cc ss d (fst n) < length cs"
proof -
  from assms(2) obtain t where t: "t \<in> set (drop (Suc i) cs)" and n: "n \<in> set (nodes t)" by auto
  from t obtain j where j: "j < length (drop (Suc i) cs)" and tj: "t = drop (Suc i) cs ! j"
    by (auto simp: in_set_conv_nth)
  then have "Suc i + j < length cs" "t = cs ! (Suc i + j)" by auto
  with assms(1) n have "slot cc ss d (fst n) = Suc i + j" by (auto simp: hashes_def)
  with \<open>Suc i + j < length cs\<close> show ?thesis by simp
qed

lemma hashes_NilMap [simp]: "hashes NilMap = {}"
  by (simp add: hashes_def)

lemma inv_child:
  "invar hk cc ss d (Node c h k v cs) \<Longrightarrow> t \<in> set cs \<Longrightarrow> invar hk cc ss (Suc d) t"
  by (auto simp: in_set_conv_nth)

lemma inv_Size: "invar hk cc ss d t \<Longrightarrow> Size t = int (length (nodes t))"
proof (induction t arbitrary: d)
  case NilMap
  then show ?case by simp
next
  case (Node c h k v cs)
  have "\<forall>t\<in>set cs. Size t = int (length (nodes t))"
    using Node.IH inv_child [OF Node.prems] by blast
  then have "sum_list (map Size cs) = int (length (concat (map nodes cs)))"
    by (induction cs) auto
  with Node.prems show ?case by simp
qed

lemma inv_hashKey: "invar hk cc ss d t \<Longrightarrow> (h, k, v) \<in> set (nodes t) \<Longrightarrow> h = hk k"
proof (induction t arbitrary: d)
  case NilMap
  then show ?case by simp
next
  case (Node c h0 k0 v0 cs)
  from Node.prems(2) consider "(h, k, v) = (h0, k0, v0)"
    | t where "t \<in> set cs" "(h, k, v) \<in> set (nodes t)" by auto
  then show ?case
  proof cases
    case 1
    with Node.prems(1) show ?thesis by simp
  next
    case 2
    with Node.IH inv_child [OF Node.prems(1)] show ?thesis by blast
  qed
qed

lemma distinct_children:
  assumes "\<forall>t\<in>set cs. distinct (map fst (nodes t))"
    and "\<forall>j<length cs. \<forall>h'\<in>hashes (cs ! j). slot cc ss d h' = j"
  shows "distinct (map fst (concat (map nodes cs)))"
  using assms
proof (induction cs rule: rev_induct)
  case Nil
  then show ?case by simp
next
  case (snoc t cs)
  have slots: "\<forall>j<length cs. \<forall>h'\<in>hashes (cs ! j). slot cc ss d h' = j"
  proof (intro allI impI)
    fix j assume "j < length cs"
    with snoc.prems(2) [rule_format, of j] show "\<forall>h'\<in>hashes (cs ! j). slot cc ss d h' = j"
      by (simp add: nth_append)
  qed
  from snoc.IH snoc.prems(1) slots have d1: "distinct (map fst (concat (map nodes cs)))" by simp
  from snoc.prems(1) have d2: "distinct (map fst (nodes t))" by simp
  have "fst ` set (concat (map nodes cs)) \<inter> fst ` set (nodes t) = {}"
  proof (rule ccontr)
    assume "\<not> ?thesis"
    then obtain x where x1: "x \<in> fst ` set (concat (map nodes cs))"
      and x2: "x \<in> fst ` set (nodes t)"
      by blast
    from x1 obtain n where n: "n \<in> set (concat (map nodes cs))" and xn: "x = fst n"
      by (rule imageE)
    from x2 obtain m where m: "m \<in> set (nodes t)" and xm: "x = fst m"
      by (rule imageE)
    from xn xm have eq: "fst n = fst m" by simp
    from n have "n \<in> set (concat (map nodes (take (length cs) cs)))" by simp
    from nodes_take_slot [OF slots this] have "slot cc ss d (fst n) < length cs" by simp
    moreover from snoc.prems(2) [rule_format, of "length cs" "fst m"] m
    have "slot cc ss d (fst m) = length cs" by (simp add: hashes_def)
    ultimately show False using eq by simp
  qed
  with d1 d2 show ?case by simp
qed

lemma inv_distinct: "invar hk cc ss d t \<Longrightarrow> distinct (map fst (nodes t))"
proof (induction t arbitrary: d)
  case NilMap
  then show ?case by simp
next
  case (Node c h k v cs)
  have "\<forall>t\<in>set cs. distinct (map fst (nodes t))"
    using Node.IH inv_child [OF Node.prems] by blast
  moreover from Node.prems
  have slots: "\<forall>j<length cs. \<forall>h'\<in>hashes (cs ! j). slot cc ss d h' = j" by simp
  ultimately have "distinct (map fst (concat (map nodes cs)))"
    by (rule distinct_children)
  moreover have "h \<notin> fst ` set (concat (map nodes cs))"
  proof
    assume "h \<in> fst ` set (concat (map nodes cs))"
    then obtain t where "t \<in> set cs" "h \<in> hashes t" by (auto simp: hashes_def)
    with Node.prems show False by (auto simp: in_set_conv_nth)
  qed
  ultimately show ?case by simp
qed

lemma slot_less: "0 < cc \<Longrightarrow> slot cc ss d h < cc"
  by (simp add: slot_def)

lemma drop_bit_slot:
  "drop_bit ss (drop_bit (d * ss) (h :: 64 word)) = drop_bit (Suc d * ss) h"
  by (simp add: drop_bit_drop_bit add.commute)

lemma others_slot:
  assumes "\<forall>j<length cs. \<forall>h'\<in>hashes (cs ! j). slot cc ss d h' = j"
    and "n \<in> set (concat (map nodes (take i cs))) \<union> set (concat (map nodes (drop (Suc i) cs)))"
  shows "slot cc ss d (fst n) \<noteq> i"
  using nodes_take_slot [OF assms(1), of n i] nodes_drop_slot [OF assms(1), of n i] assms(2)
  by auto

lemma setLowLevel_inv:
  assumes "0 < cc" and "invar hk cc ss d t" and "hash = hk key"
    and "\<forall>n\<in>set (nodes t). fst n = hash \<longrightarrow> fst (snd n) = key"
  shows "\<exists>t'. setLowLevel cc ss t (drop_bit (d * ss) hash) hash key val = Inr t' \<and>
           invar hk cc ss d t' \<and>
           set (nodes t') = {n \<in> set (nodes t). fst n \<noteq> hash} \<union> {(hash, key, val)}"
  using assms(2,4)
proof (induction t arbitrary: d)
  case NilMap
  show ?case using assms(1,3) by (simp add: sum_list_replicate)
next
  case (Node c h k v cs)
  note inv = Node.prems(1)
  from inv have len: "length cs = cc" by simp
  from inv have slots: "\<forall>j<length cs. \<forall>h'\<in>hashes (cs ! j). slot cc ss d h' = j" by simp
  show ?case
  proof (cases "hash = h")
    case True
    with Node.prems(2) have k: "k = key" by simp
    have "n \<in> set (concat (map nodes cs)) \<Longrightarrow> fst n \<noteq> h" for n
    proof -
      assume "n \<in> set (concat (map nodes cs))"
      then obtain t where "t \<in> set cs" "fst n \<in> hashes t" by (auto simp: hashes_def)
      with inv show "fst n \<noteq> h" by (auto simp: in_set_conv_nth)
    qed
    then have "set (nodes (Node c h k val cs)) =
        {n \<in> set (nodes (Node c h k v cs)). fst n \<noteq> hash} \<union> {(hash, key, val)}"
      using True k by auto
    moreover from inv have "invar hk cc ss d (Node c h k val cs)" by auto
    moreover have "setLowLevel cc ss (Node c h k v cs) (drop_bit (d * ss) hash) hash key val =
        Inr (Node c h k val cs)"
      using True k by simp
    ultimately show ?thesis by blast
  next
    case False
    let ?i = "slot cc ss d hash"
    have i: "?i < length cs" using len assms(1) by (simp add: slot_less)
    then have mem: "cs ! ?i \<in> set cs" by simp
    from inv i have invi: "invar hk cc ss (Suc d) (cs ! ?i)" by simp
    have "\<forall>n\<in>set (nodes (cs ! ?i)). fst n = hash \<longrightarrow> fst (snd n) = key"
      using Node.prems(2) mem by auto
    from Node.IH [OF mem invi this] obtain child where
      child: "setLowLevel cc ss (cs ! ?i) (drop_bit (Suc d * ss) hash) hash key val = Inr child"
      and invc: "invar hk cc ss (Suc d) child"
      and nodesc: "set (nodes child) =
           {n \<in> set (nodes (cs ! ?i)). fst n \<noteq> hash} \<union> {(hash, key, val)}"
      by blast
    let ?t' = "Node (1 + sum_list (map Size (cs[?i := child]))) h k v (cs[?i := child])"
    have res: "setLowLevel cc ss (Node c h k v cs) (drop_bit (d * ss) hash) hash key val = Inr ?t'"
      using False i child by (simp add: slot_def [symmetric] Let_def)
    have hc: "hashes child \<subseteq> insert hash (hashes (cs ! ?i))"
      using nodesc by (auto simp: hashes_def)
    have "invar hk cc ss d ?t'"
      using inv invc hc i False by (auto simp: nth_list_update)
    moreover have "set (nodes ?t') =
        {n \<in> set (nodes (Node c h k v cs)). fst n \<noteq> hash} \<union> {(hash, key, val)}"
    proof -
      define AB where "AB = set (concat (map nodes (take ?i cs))) \<union>
                            set (concat (map nodes (drop (Suc ?i) cs)))"
      have ne: "\<forall>n\<in>AB. fst n \<noteq> hash"
        using others_slot [OF slots, of _ ?i] unfolding AB_def by metis
      have eq1: "set (nodes ?t') = insert (h, k, v) (AB \<union> set (nodes child))"
        by (auto simp: nodes_children_update [OF i] AB_def)
      have eq2: "set (nodes (Node c h k v cs)) = insert (h, k, v) (AB \<union> set (nodes (cs ! ?i)))"
        by (auto simp: nodes_children_split [OF i] AB_def)
      show ?thesis unfolding eq1 eq2 nodesc using ne False by auto
    qed
    ultimately show ?thesis using res by blast
  qed
qed

lemma map_of_others:
  "\<forall>n\<in>set xs. fst n \<noteq> hash \<Longrightarrow> map_of (map (\<lambda>(h, k, v). (h, v)) xs) hash = None"
  by (induction xs) auto

lemma lookupLowLevel_invar:
  assumes "0 < cc" and "invar hk cc ss d t"
  shows "lookupLowLevel cc ss t (drop_bit (d * ss) hash) hash =
         Inr (case valueOf t hash of None \<Rightarrow> ([], False) | Some v \<Rightarrow> (v, True))"
  using assms(2)
proof (induction t arbitrary: d)
  case NilMap
  then show ?case by (simp add: valueOf_def)
next
  case (Node c h k v cs)
  note inv = Node.prems(1)
  from inv have len: "length cs = cc" by simp
  from inv have slots: "\<forall>j<length cs. \<forall>h'\<in>hashes (cs ! j). slot cc ss d h' = j" by simp
  show ?case
  proof (cases "hash = h")
    case True
    then show ?thesis by (simp add: valueOf_def)
  next
    case False
    let ?i = "slot cc ss d hash"
    have i: "?i < length cs" using len assms(1) by (simp add: slot_less)
    then have mem: "cs ! ?i \<in> set cs" by simp
    from inv i have invi: "invar hk cc ss (Suc d) (cs ! ?i)" by simp
    have ne1: "\<forall>n\<in>set (concat (map nodes (take ?i cs))). fst n \<noteq> hash"
      using others_slot [OF slots, of _ ?i] by blast
    have ne2: "\<forall>n\<in>set (concat (map nodes (drop (Suc ?i) cs))). fst n \<noteq> hash"
      using others_slot [OF slots, of _ ?i] by blast
    have "valueOf (Node c h k v cs) hash = valueOf (cs ! ?i) hash"
      using False map_of_others [OF ne1] map_of_others [OF ne2]
      by (simp add: valueOf_def nodes_children_split [OF i] map_add_def split: option.split)
    moreover have "lookupLowLevel cc ss (Node c h k v cs) (drop_bit (d * ss) hash) hash =
        lookupLowLevel cc ss (cs ! ?i) (drop_bit (Suc d * ss) hash) hash"
      using False i by (simp add: slot_def [symmetric] Let_def)
    ultimately show ?thesis using Node.IH [OF mem invi] by simp
  qed
qed

lemma setLowLevel_collision:
  assumes "0 < cc" and "invar hk cc ss d t"
    and "(hash, k1, v1) \<in> set (nodes t)" and "k1 \<noteq> key"
  shows "setLowLevel cc ss t (drop_bit (d * ss) hash) hash key val = Inl (HashCollision k1 key)"
  using assms(2,3)
proof (induction t arbitrary: d)
  case NilMap
  then show ?case by simp
next
  case (Node c h k v cs)
  note inv = Node.prems(1)
  from inv have len: "length cs = cc" by simp
  from inv have slots: "\<forall>j<length cs. \<forall>h'\<in>hashes (cs ! j). slot cc ss d h' = j" by simp
  from inv_distinct [OF inv] have hnot: "h \<notin> fst ` set (concat (map nodes cs))" by simp
  show ?case
  proof (cases "hash = h")
    case True
    with Node.prems(2) hnot have "k1 = k" by force
    with True assms(4) show ?thesis by simp
  next
    case False
    let ?i = "slot cc ss d hash"
    have i: "?i < length cs" using len assms(1) by (simp add: slot_less)
    then have mem: "cs ! ?i \<in> set cs" by simp
    from inv i have invi: "invar hk cc ss (Suc d) (cs ! ?i)" by simp
    from False Node.prems(2) have "(hash, k1, v1) \<in> set (concat (map nodes cs))" by simp
    then have "(hash, k1, v1) \<in> set (nodes (cs ! ?i))"
      using others_slot [OF slots, of "(hash, k1, v1)" ?i]
      by (auto simp: nodes_children_split [OF i])
    from Node.IH [OF mem invi this] False i show ?thesis
      by (simp add: slot_def [symmetric] Let_def)
  qed
qed

lemma firstChild_Some: "firstChild cs = Some i \<Longrightarrow> i < length cs \<and> cs ! i \<noteq> NilMap"
  by (induction cs arbitrary: i) (auto split: if_splits)

lemma firstChild_None: "firstChild cs = None \<Longrightarrow> t \<in> set cs \<Longrightarrow> t = NilMap"
  by (induction cs) (auto split: if_splits)

lemma invar_children_Size:
  assumes "invar hk cc ss d (Node c h k v cs)"
  shows "sum_list (map Size cs) = int (length (concat (map nodes cs)))"
proof -
  have "\<forall>t\<in>set cs. Size t = int (length (nodes t))"
    using inv_child [OF assms] inv_Size by blast
  then show ?thesis by (induction cs) auto
qed

lemma invar_leaf:
  assumes "invar hk cc ss d (Node c h k v cs)" and "isLeaf (Node c h k v cs)"
  shows "concat (map nodes cs) = []"
proof -
  from assms have "sum_list (map Size cs) = 0" by (simp add: isLeaf_def)
  with invar_children_Size [OF assms(1)] show ?thesis by simp
qed

lemma invar_not_leaf:
  assumes "invar hk cc ss d (Node c h k v cs)" and "\<not> isLeaf (Node c h k v cs)"
  shows "\<exists>t\<in>set cs. 1 \<le> Size t"
proof -
  from assms have "sum_list (map Size cs) \<noteq> 0" by (simp add: isLeaf_def)
  with invar_children_Size [OF assms(1)] have "concat (map nodes cs) \<noteq> []" by auto
  then obtain t where t: "t \<in> set cs" "nodes t \<noteq> []" by auto
  with inv_child [OF assms(1)] inv_Size have "Size t = int (length (nodes t))" by blast
  with t(2) have "1 \<le> Size t" by (cases "nodes t") auto
  with t(1) show ?thesis by blast
qed

lemma deleteLeftmost_invar:
  assumes "invar hk cc ss d t" and "t \<noteq> NilMap"
  shows "\<exists>c h k v cs' rest. deleteLeftmost t = Inr (Node c h k v cs', rest) \<and>
           invar hk cc ss d rest \<and> (h, k, v) \<in> set (nodes t) \<and>
           set (nodes rest) = set (nodes t) - {(h, k, v)}"
  using assms
proof (induction t arbitrary: d)
  case NilMap
  then show ?case by simp
next
  case (Node c h k v cs)
  note inv = Node.prems(1)
  from inv have len: "length cs = cc" by simp
  from inv have slots: "\<forall>j<length cs. \<forall>h'\<in>hashes (cs ! j). slot cc ss d h' = j" by simp
  show ?case
  proof (cases "isLeaf (Node c h k v cs)")
    case True
    from invar_leaf [OF inv True] have "set (nodes (Node c h k v cs)) - {(h, k, v)} = set (nodes NilMap)"
      by simp
    moreover have "deleteLeftmost (Node c h k v cs) = Inr (Node c h k v cs, NilMap)"
      using True by simp
    moreover have "invar hk cc ss d NilMap" by simp
    moreover have "(h, k, v) \<in> set (nodes (Node c h k v cs))" by simp
    ultimately show ?thesis by metis
  next
    case False
    from invar_not_leaf [OF inv False] obtain t0 where "t0 \<in> set cs" "t0 \<noteq> NilMap"
      by force
    with firstChild_None [of cs t0] obtain i where fc: "firstChild cs = Some i"
      by (cases "firstChild cs") auto
    from firstChild_Some [OF fc] have i: "i < length cs" and nn: "cs ! i \<noteq> NilMap" by auto
    from i have mem: "cs ! i \<in> set cs" by simp
    from inv i have invi: "invar hk cc ss (Suc d) (cs ! i)" by simp
    from Node.IH [OF mem invi nn] obtain c' h' k' v' cs' child where
      dl: "deleteLeftmost (cs ! i) = Inr (Node c' h' k' v' cs', child)"
      and invc: "invar hk cc ss (Suc d) child"
      and r: "(h', k', v') \<in> set (nodes (cs ! i))"
      and nodesc: "set (nodes child) = set (nodes (cs ! i)) - {(h', k', v')}"
      by (elim exE conjE) (rule that)
    let ?rest = "Node (1 + sum_list (map Size (cs[i := child]))) h k v (cs[i := child])"
    have res: "deleteLeftmost (Node c h k v cs) = Inr (Node c' h' k' v' cs', ?rest)"
      using False fc dl by simp
    have hc: "hashes child \<subseteq> hashes (cs ! i)"
      using nodesc by (auto simp: hashes_def)
    have invr: "invar hk cc ss d ?rest"
      using inv invc hc i by (auto simp: nth_list_update)
    define AB where "AB = set (concat (map nodes (take i cs))) \<union>
                          set (concat (map nodes (drop (Suc i) cs)))"
    have ne: "\<forall>n\<in>AB. slot cc ss d (fst n) \<noteq> i"
      using others_slot [OF slots, of _ i] unfolding AB_def by metis
    have eq1: "set (nodes ?rest) = insert (h, k, v) (AB \<union> set (nodes child))"
      by (auto simp: nodes_children_update [OF i] AB_def)
    have eq2: "set (nodes (Node c h k v cs)) = insert (h, k, v) (AB \<union> set (nodes (cs ! i)))"
      by (auto simp: nodes_children_split [OF i] AB_def)
    from r have h'i: "h' \<in> hashes (cs ! i)" by (force simp: hashes_def)
    with slots i have "slot cc ss d h' = i" by simp
    with ne have notAB: "(h', k', v') \<notin> AB" by force
    from inv i h'i have "h \<noteq> h'" by auto
    with notAB have "set (nodes ?rest) = set (nodes (Node c h k v cs)) - {(h', k', v')}"
      unfolding eq1 eq2 nodesc by auto
    moreover from r have "(h', k', v') \<in> set (nodes (Node c h k v cs))"
      unfolding eq2 by simp
    ultimately show ?thesis using res invr by blast
  qed
qed

lemma largestChild_props:
  "largestChild cs j (i0, s0) = (i, s) \<Longrightarrow>
   s0 \<le> s \<and> (\<forall>t\<in>set cs. Size t \<le> s) \<and>
   ((i = i0 \<and> s = s0) \<or>
    (int j \<le> i \<and> i < int j + int (length cs) \<and> Size (cs ! (nat i - j)) = s))"
proof (induction cs arbitrary: j i0 s0)
  case Nil
  then show ?case by simp
next
  case (Cons t ts)
  show ?case
  proof (cases "Size t > s0")
    case True
    with Cons.prems have "largestChild ts (Suc j) (int j, Size t) = (i, s)" by simp
    from Cons.IH [OF this] True show ?thesis
      by (auto simp: nth_Cons' nat_diff_distrib)
  next
    case False
    with Cons.prems have "largestChild ts (Suc j) (i0, s0) = (i, s)" by simp
    from Cons.IH [OF this] False show ?thesis
      by (auto simp: nth_Cons' nat_diff_distrib)
  qed
qed

lemma distinct_fst_remove:
  assumes "distinct (map fst xs)" and "(h, y) \<in> set xs"
  shows "h \<notin> fst ` (set xs - {(h, y)})"
proof
  assume "h \<in> fst ` (set xs - {(h, y)})"
  then obtain n where n: "n \<in> set xs" "n \<noteq> (h, y)" "fst n = h" by auto
  from assms(1) have "inj_on fst (set xs)" by (simp add: distinct_map)
  from inj_onD [OF this _ n(1) assms(2)] n(3) have "n = (h, y)" by simp
  with n(2) show False by simp
qed

lemma deleteLowLevel_invar:
  assumes "0 < cc" and "invar hk cc ss d t"
  shows "\<exists>t' found. deleteLowLevel cc ss t (drop_bit (d * ss) hash) hash = Inr (t', found) \<and>
           invar hk cc ss d t' \<and> (found \<longleftrightarrow> hash \<in> hashes t) \<and>
           set (nodes t') = {n \<in> set (nodes t). fst n \<noteq> hash} \<and>
           (\<not> found \<longrightarrow> t' = t)"
  using assms(2)
proof (induction t arbitrary: d)
  case NilMap
  show ?case by (intro exI [of _ NilMap] exI [of _ False]) simp
next
  case (Node c h k v cs)
  note inv = Node.prems(1)
  from inv have len: "length cs = cc" by simp
  from inv have slots: "\<forall>j<length cs. \<forall>h'\<in>hashes (cs ! j). slot cc ss d h' = j" by simp
  have hnot: "\<forall>n\<in>set (concat (map nodes cs)). fst n \<noteq> h"
    using inv_distinct [OF inv] by auto
  let ?t = "Node c h k v cs"
  show ?case
  proof (cases "hash = h")
    case False
    let ?i = "slot cc ss d hash"
    have i: "?i < length cs" using len assms(1) by (simp add: slot_less)
    then have mem: "cs ! ?i \<in> set cs" by simp
    from inv i have invi: "invar hk cc ss (Suc d) (cs ! ?i)" by simp
    from Node.IH [OF mem invi] obtain child found where
      dl: "deleteLowLevel cc ss (cs ! ?i) (drop_bit (Suc d * ss) hash) hash = Inr (child, found)"
      and invc: "invar hk cc ss (Suc d) child"
      and found: "found \<longleftrightarrow> hash \<in> hashes (cs ! ?i)"
      and nodesc: "set (nodes child) = {n \<in> set (nodes (cs ! ?i)). fst n \<noteq> hash}"
      and same: "\<not> found \<longrightarrow> child = cs ! ?i"
      by (elim exE conjE) (rule that)
    define AB where "AB = set (concat (map nodes (take ?i cs))) \<union>
                          set (concat (map nodes (drop (Suc ?i) cs)))"
    have ne: "\<forall>n\<in>AB. fst n \<noteq> hash"
      using others_slot [OF slots, of _ ?i] unfolding AB_def by metis
    have eq2: "set (nodes ?t) = insert (h, k, v) (AB \<union> set (nodes (cs ! ?i)))"
      by (auto simp: nodes_children_split [OF i] AB_def)
    have hashes_t: "hash \<in> hashes ?t \<longleftrightarrow> hash \<in> hashes (cs ! ?i)"
      unfolding hashes_def eq2 using ne False by force
    show ?thesis
    proof (cases found)
      case True
      let ?t' = "Node (1 + sum_list (map Size (cs[?i := child]))) h k v (cs[?i := child])"
      have res: "deleteLowLevel cc ss ?t (drop_bit (d * ss) hash) hash = Inr (?t', True)"
        using False i dl True by (simp add: slot_def [symmetric] Let_def)
      have hc: "hashes child \<subseteq> hashes (cs ! ?i)"
        using nodesc by (auto simp: hashes_def)
      have invr: "invar hk cc ss d ?t'"
        using inv invc hc i by (auto simp: nth_list_update)
      have eq1: "set (nodes ?t') = insert (h, k, v) (AB \<union> set (nodes child))"
        by (auto simp: nodes_children_update [OF i] AB_def)
      have "set (nodes ?t') = {n \<in> set (nodes ?t). fst n \<noteq> hash}"
        unfolding eq1 eq2 nodesc using ne False by auto
      with res invr hashes_t found True show ?thesis by blast
    next
      case nf: False
      have res: "deleteLowLevel cc ss ?t (drop_bit (d * ss) hash) hash = Inr (?t, False)"
        using False i dl nf by (simp add: slot_def [symmetric] Let_def)
      from nf found have "\<forall>n\<in>set (nodes (cs ! ?i)). fst n \<noteq> hash"
        by (auto simp: hashes_def)
      then have "set (nodes ?t) = {n \<in> set (nodes ?t). fst n \<noteq> hash}"
        unfolding eq2 using ne False by auto
      with res inv hashes_t found nf show ?thesis by blast
    qed
  next
    case True
    have hin: "hash \<in> hashes ?t" using True by (simp add: hashes_def)
    show ?thesis
    proof (cases "isLeaf ?t")
      case leaf: True
      have res: "deleteLowLevel cc ss ?t (drop_bit (d * ss) hash) hash = Inr (NilMap, True)"
        using True leaf by simp
      have "set (nodes NilMap) = {n \<in> set (nodes ?t). fst n \<noteq> hash}"
        using invar_leaf [OF inv leaf] True by auto
      moreover have "invar hk cc ss d NilMap" by simp
      ultimately show ?thesis using res hin by blast
    next
      case nonleaf: False
      obtain li s where lc: "largestChild cs 0 (- 1, - 1) = (li, s)"
        by (cases "largestChild cs 0 (- 1, - 1)")
      from invar_not_leaf [OF inv nonleaf] obtain t0 where t0: "t0 \<in> set cs" "1 \<le> Size t0"
        by blast
      from largestChild_props [OF lc] t0 have "1 \<le> s" by force
      with largestChild_props [OF lc]
      have li: "0 \<le> li" "nat li < length cs" and sz: "1 \<le> Size (cs ! nat li)"
        by auto
      let ?i = "nat li"
      from li have i: "?i < length cs" by simp
      then have mem: "cs ! ?i \<in> set cs" by simp
      from inv i have invi: "invar hk cc ss (Suc d) (cs ! ?i)" by simp
      from sz have nn: "cs ! ?i \<noteq> NilMap" by auto
      from deleteLeftmost_invar [OF invi nn] obtain c' h' k' v' cs' child where
        dl: "deleteLeftmost (cs ! ?i) = Inr (Node c' h' k' v' cs', child)"
        and invc: "invar hk cc ss (Suc d) child"
        and r: "(h', k', v') \<in> set (nodes (cs ! ?i))"
        and nodesc: "set (nodes child) = set (nodes (cs ! ?i)) - {(h', k', v')}"
        by (elim exE conjE) (rule that)
      let ?t' = "Node (1 + sum_list (map Size (cs[?i := child]))) h' k' v' (cs[?i := child])"
      have res: "deleteLowLevel cc ss ?t (drop_bit (d * ss) hash) hash = Inr (?t', True)"
        using True nonleaf lc li dl by simp
      define AB where "AB = set (concat (map nodes (take ?i cs))) \<union>
                            set (concat (map nodes (drop (Suc ?i) cs)))"
      have ne: "\<forall>n\<in>AB. slot cc ss d (fst n) \<noteq> ?i"
        using others_slot [OF slots, of _ ?i] unfolding AB_def by metis
      have eq1: "set (nodes ?t') = insert (h', k', v') (AB \<union> set (nodes child))"
        by (auto simp: nodes_children_update [OF i] AB_def)
      have eq2: "set (nodes ?t) = insert (h, k, v) (AB \<union> set (nodes (cs ! ?i)))"
        by (auto simp: nodes_children_split [OF i] AB_def)
      have eq3: "set (concat (map nodes cs)) = AB \<union> set (nodes (cs ! ?i))"
        by (auto simp: nodes_children_split [OF i] AB_def)
      from r have h'i: "h' \<in> hashes (cs ! ?i)" by (force simp: hashes_def)
      with slots i have sloth': "slot cc ss d h' = ?i" by simp
      have hk': "h' = hk k'" using inv_hashKey [OF invi r] .
      have h'child: "h' \<notin> hashes child"
        unfolding hashes_def nodesc
        using distinct_fst_remove [OF inv_distinct [OF invi] r] .
      have hc: "hashes child \<subseteq> hashes (cs ! ?i)"
        using nodesc by (auto simp: hashes_def)
      have others: "\<forall>j<length cs. j \<noteq> ?i \<longrightarrow> h' \<notin> hashes (cs ! j)"
        using slots sloth' by auto
      have invr: "invar hk cc ss d ?t'"
        using inv invc hc i hk' h'child others by (auto simp: nth_list_update)
      have "set (nodes ?t') = AB \<union> set (nodes (cs ! ?i))"
        unfolding eq1 nodesc using r by auto
      also have "\<dots> = {n \<in> set (nodes ?t). fst n \<noteq> hash}"
        unfolding eq2 using hnot True unfolding eq3 by auto
      finally show ?thesis using res invr hin by blast
    qed
  qed
qed

lemma keys_closure_foldE:
  "i + length xs \<le> length ks \<Longrightarrow>
   foldE (\<lambda>k v (keys, i). if i < length keys then Inr (keys[i := k], Suc i) else Inl IndexOutOfRange)
     xs (ks, i) =
   Inr (take i ks @ map fst xs @ drop (i + length xs) ks, i + length xs)"
proof (induction xs arbitrary: ks i)
  case Nil
  then show ?case by simp
next
  case (Cons x xs)
  obtain k v where x: "x = (k, v)" by (cases x)
  from Cons.prems have i: "i < length ks" by simp
  have "take (Suc i) (ks[i := k]) = take i ks @ [k]"
    using i by (simp add: take_Suc_conv_app_nth)
  moreover have "drop (Suc i + length xs) (ks[i := k]) = drop (Suc i + length xs) ks"
    by simp
  ultimately show ?case using Cons.IH [of "Suc i" "ks[i := k]"] Cons.prems i
    by (simp add: x)
qed

lemma Keys_invar:
  assumes "invar hk cc ss d t"
  shows "Keys t = Inr (keysOf t)"
proof -
  have sz: "Size t = int (length (nodes t))" using assms by (rule inv_Size)
  have "0 + length (map snd (nodes t)) \<le> length (replicate (nat (Size t)) ([] :: string))"
    by (simp add: sz)
  from keys_closure_foldE [OF this]
  show ?thesis by (simp add: Keys_def ForEach_foldE sz keysOf_def o_def split_def)
qed

lemma invar_countInv: "invar hk cc ss d t \<Longrightarrow> countInv t"
proof (induction t arbitrary: d)
  case NilMap
  then show ?case by simp
next
  case (Node c h k v cs)
  from Node.IH inv_child [OF Node.prems] have "\<forall>t\<in>set cs. countInv t" by blast
  with Node.prems show ?case by simp
qed

lemma keysOf_hash:
  assumes "invar hk cc ss d t" and "k \<in> set (keysOf t)"
  shows "\<exists>v. (hk k, k, v) \<in> set (nodes t)"
proof -
  from assms(2) obtain h v where "(h, k, v) \<in> set (nodes t)"
    by (auto simp: keysOf_def)
  with inv_hashKey [OF assms(1) this] show ?thesis by blast
qed

lemma valueOf_Some_iff:
  assumes "invar hk cc ss d t"
  shows "valueOf t h = Some v \<longleftrightarrow> (\<exists>k. (h, k, v) \<in> set (nodes t))"
proof -
  have "distinct (map fst (map (\<lambda>(h, k, v). (h, v)) (nodes t)))"
    using inv_distinct [OF assms] by (simp add: o_def split_def)
  then have "valueOf t h = Some v \<longleftrightarrow> (h, v) \<in> set (map (\<lambda>(h, k, v). (h, v)) (nodes t))"
    unfolding valueOf_def by simp
  also have "\<dots> \<longleftrightarrow> (\<exists>k. (h, k, v) \<in> set (nodes t))" by force
  finally show ?thesis .
qed

lemma valueOf_None_iff: "valueOf t h = None \<longleftrightarrow> h \<notin> hashes t"
  by (force simp: valueOf_def hashes_def map_of_eq_None_iff)

lemma valueOf_eqI:
  assumes "invar hk cc ss d t" and "invar hk cc ss d' t'"
    and "\<And>k v. (h, k, v) \<in> set (nodes t') \<longleftrightarrow> (h, k, v) \<in> set (nodes t)"
  shows "valueOf t' h = valueOf t h"
proof (cases "valueOf t h")
  case None
  then have "h \<notin> hashes t" by (simp add: valueOf_None_iff)
  with assms(3) have "h \<notin> hashes t'" by (force simp: hashes_def)
  then have "valueOf t' h = None" by (simp add: valueOf_None_iff)
  with None show ?thesis by simp
next
  case (Some v)
  with valueOf_Some_iff [OF assms(1)] assms(3) valueOf_Some_iff [OF assms(2)]
  show ?thesis by metis
qed

lemma Lookup_invar:
  assumes "0 < cc" and "invar hk cc ss 0 m"
  shows "Lookup hk cc ss m k =
         Inr (case valueOf m (hk k) of None \<Rightarrow> ([], False) | Some v \<Rightarrow> (v, True))"
  using lookupLowLevel_invar [OF assms, of "hk k"] by (simp add: Lookup_def)

lemma Set_invar:
  assumes "0 < cc" and "invar hk cc ss 0 m"
    and "\<forall>k'\<in>set (keysOf m). hk k' = hk k \<longrightarrow> k' = k"
  shows "\<exists>m'. Set hk cc ss m k v = Inr m' \<and> invar hk cc ss 0 m' \<and>
           set (nodes m') = {n \<in> set (nodes m). fst n \<noteq> hk k} \<union> {(hk k, k, v)}"
proof -
  have "\<forall>n\<in>set (nodes m). fst n = hk k \<longrightarrow> fst (snd n) = k"
  proof (intro ballI impI)
    fix n assume n: "n \<in> set (nodes m)" and eq: "fst n = hk k"
    obtain h k' v' where nn: "n = (h, k', v')" by (cases n)
    with n have "k' \<in> set (keysOf m)" by (force simp: keysOf_def)
    moreover from inv_hashKey [OF assms(2)] n nn eq have "hk k' = hk k" by auto
    ultimately show "fst (snd n) = k" using assms(3) nn by simp
  qed
  from setLowLevel_inv [OF assms(1,2) refl this, of v]
  show ?thesis by (simp add: Set_def Let_def)
qed

lemma Set_Inr_invar:
  assumes "0 < cc" and "invar hk cc ss 0 m" and "Set hk cc ss m k v = Inr m'"
  shows "invar hk cc ss 0 m'"
proof -
  have "\<forall>k'\<in>set (keysOf m). hk k' = hk k \<longrightarrow> k' = k"
  proof (intro ballI impI, rule ccontr)
    fix k' assume k': "k' \<in> set (keysOf m)" and eq: "hk k' = hk k" and ne: "k' \<noteq> k"
    from keysOf_hash [OF assms(2) k'] obtain v' where "(hk k, k', v') \<in> set (nodes m)"
      using eq by auto
    from setLowLevel_collision [OF assms(1,2) this ne, of v] assms(3)
    show False by (simp add: Set_def Let_def)
  qed
  from Set_invar [OF assms(1,2) this, of v] assms(3) show ?thesis by auto
qed

lemma Delete_invar:
  assumes "0 < cc" and "invar hk cc ss 0 m"
  shows "\<exists>m'. Delete hk cc ss m k = Inr m' \<and> invar hk cc ss 0 m' \<and>
           set (nodes m') = {n \<in> set (nodes m). fst n \<noteq> hk k} \<and>
           (hk k \<notin> hashes m \<longrightarrow> m' = m)"
proof -
  from deleteLowLevel_invar [OF assms, of "hk k"] obtain t' found where
    "deleteLowLevel cc ss m (hk k) (hk k) = Inr (t', found)" "invar hk cc ss 0 t'"
    "found \<longleftrightarrow> hk k \<in> hashes m" "set (nodes t') = {n \<in> set (nodes m). fst n \<noteq> hk k}"
    "\<not> found \<longrightarrow> t' = m"
    by auto
  then show ?thesis by (simp add: Delete_def Let_def)
qed

lemma runOps_invar:
  assumes "0 < cc"
  shows "invar hk cc ss 0 m \<Longrightarrow> runOps hk cc ss m ops = Inr m' \<Longrightarrow> invar hk cc ss 0 m'"
proof (induction ops arbitrary: m)
  case Nil
  then show ?case by simp
next
  case (Cons op ops)
  show ?case
  proof (cases op)
    case (OpSet k v)
    with Cons.prems(2) obtain m1 where m1: "Set hk cc ss m k v = Inr m1"
      and rest: "runOps hk cc ss m1 ops = Inr m'"
      by (auto split: sum.splits)
    from Set_Inr_invar [OF assms Cons.prems(1) m1] Cons.IH rest show ?thesis by blast
  next
    case (OpDelete k)
    with Cons.prems(2) obtain m1 where m1: "Delete hk cc ss m k = Inr m1"
      and rest: "runOps hk cc ss m1 ops = Inr m'"
      by (auto split: sum.splits)
    from Delete_invar [OF assms Cons.prems(1), of k] m1 have "invar hk cc ss 0 m1" by auto
    with Cons.IH rest show ?thesis by blast
  qed
qed

lemma built_invar:
  assumes "0 < cc" and "runOps hk cc ss NewStringMap ops = Inr m"
  shows "invar hk cc ss 0 m"
  using runOps_invar [OF assms(1) _ assms(2)] by (simp add: NewStringMap_def)

lemma invar_Size_card: "invar hk cc ss d t \<Longrightarrow> Size t = int (card (hashes t))"
proof -
  assume inv: "invar hk cc ss d t"
  from inv_distinct [OF inv] have "card (set (map fst (nodes t))) = length (map fst (nodes t))"
    by (rule distinct_card)
  with inv_Size [OF inv] show ?thesis by (simp add: hashes_def)
qed

lemma keysOf_hashes:
  assumes "invar hk cc ss d t"
  shows "hashes t = hk ` set (keysOf t)"
proof (intro set_eqI iffI)
  fix h assume "h \<in> hashes t"
  then obtain k v where n: "(h, k, v) \<in> set (nodes t)" by (auto simp: hashes_def)
  then have "k \<in> set (keysOf t)" by (force simp: keysOf_def)
  with inv_hashKey [OF assms n] show "h \<in> hk ` set (keysOf t)" by simp
next
  fix h assume "h \<in> hk ` set (keysOf t)"
  then obtain k where "k \<in> set (keysOf t)" "h = hk k" by auto
  with keysOf_hash [OF assms] show "h \<in> hashes t" by (force simp: hashes_def)
qed

lemma hashes_after:
  "set (nodes t') = {n \<in> set (nodes t). fst n \<noteq> h} \<Longrightarrow> hashes t' = hashes t - {h}"
  by (force simp: hashes_def)

lemma hashes_after_Set:
  "set (nodes t') = {n \<in> set (nodes t). fst n \<noteq> h} \<union> {(h, k, v)} \<Longrightarrow>
   hashes t' = insert h (hashes t)"
  by (force simp: hashes_def)

lemma finite_hashes [simp]: "finite (hashes t)"
  by (simp add: hashes_def)

lemma present_iff:
  assumes "invar hk cc ss d t" and "\<forall>k'\<in>set (keysOf t). hk k' = hk k \<longrightarrow> k' = k"
  shows "hk k \<in> hashes t \<longleftrightarrow> k \<in> set (keysOf t)"
  unfolding keysOf_hashes [OF assms(1)] using assms(2) by auto

lemma keysOf_distinct:
  assumes "invar hk cc ss d t"
  shows "distinct (keysOf t)"
proof -
  have "map fst (nodes t) = map hk (keysOf t)"
    using inv_hashKey [OF assms] by (auto simp: keysOf_def)
  with inv_distinct [OF assms] show ?thesis by (simp add: distinct_map)
qed

lemma Set_Size_invar:
  assumes "0 < cc" and "invar hk cc ss 0 m"
    and "\<forall>k'\<in>set (keysOf m). hk k' = hk k \<longrightarrow> k' = k"
  shows "\<exists>m'. Set hk cc ss m k v = Inr m' \<and> invar hk cc ss 0 m' \<and>
           hashes m' = insert (hk k) (hashes m) \<and>
           Size m' = (if k \<in> set (keysOf m) then Size m else Size m + 1)"
proof -
  from Set_invar [OF assms, of v] obtain m' where
    s: "Set hk cc ss m k v = Inr m'" and inv': "invar hk cc ss 0 m'"
    and n: "set (nodes m') = {n \<in> set (nodes m). fst n \<noteq> hk k} \<union> {(hk k, k, v)}"
    by (elim exE conjE) (rule that)
  from hashes_after_Set [OF n] have h: "hashes m' = insert (hk k) (hashes m)" .
  have "Size m' = (if k \<in> set (keysOf m) then Size m else Size m + 1)"
    unfolding invar_Size_card [OF inv'] invar_Size_card [OF assms(2)] h
    using present_iff [OF assms(2,3)] by (simp add: insert_absorb)
  with s inv' h show ?thesis by blast
qed

lemma runOps_append:
  "runOps hk cc ss m (xs @ ys) =
   (case runOps hk cc ss m xs of Inl e \<Rightarrow> Inl e | Inr m' \<Rightarrow> runOps hk cc ss m' ys)"
  by (induction hk cc ss m xs rule: runOps.induct) (auto split: sum.splits)

lemma Set_many:
  assumes "0 < cc"
  shows "invar hk cc ss 0 m \<Longrightarrow> distinct (map fst kvs) \<Longrightarrow>
         inj_on hk (set (keysOf m) \<union> fst ` set kvs) \<Longrightarrow>
         set (keysOf m) \<inter> fst ` set kvs = {} \<Longrightarrow>
         \<exists>m'. runOps hk cc ss m (map (\<lambda>(k, v). OpSet k v) kvs) = Inr m' \<and>
              Size m' = Size m + int (length kvs)"
proof (induction kvs arbitrary: m)
  case Nil
  then show ?case by simp
next
  case (Cons kv kvs)
  obtain k v where kv: "kv = (k, v)" by (cases kv)
  have cf: "\<forall>k'\<in>set (keysOf m). hk k' = hk k \<longrightarrow> k' = k"
  proof (intro ballI impI)
    fix k' assume "k' \<in> set (keysOf m)" "hk k' = hk k"
    with inj_onD [OF Cons.prems(3), of k' k] kv show "k' = k" by simp
  qed
  from Cons.prems(4) kv have notin: "k \<notin> set (keysOf m)" by auto
  from Set_Size_invar [OF assms Cons.prems(1) cf, of v] notin obtain m1 where
    s: "Set hk cc ss m k v = Inr m1" and inv1: "invar hk cc ss 0 m1"
    and h1: "hashes m1 = insert (hk k) (hashes m)" and sz: "Size m1 = Size m + 1"
    by auto
  have keys1: "hk ` set (keysOf m1) = insert (hk k) (hk ` set (keysOf m))"
    using h1 by (simp add: keysOf_hashes [OF inv1] keysOf_hashes [OF Cons.prems(1)])
  from Set_invar [OF assms Cons.prems(1) cf, of v] s
  have "set (nodes m1) = {n \<in> set (nodes m). fst n \<noteq> hk k} \<union> {(hk k, k, v)}" by auto
  then have sub: "set (keysOf m1) \<subseteq> insert k (set (keysOf m))"
    by (force simp: keysOf_def)
  from Cons.prems(2) kv have d: "distinct (map fst kvs)" and knot: "k \<notin> fst ` set kvs" by auto
  have inj: "inj_on hk (set (keysOf m1) \<union> fst ` set kvs)"
    by (rule inj_on_subset [OF Cons.prems(3)]) (use sub kv in auto)
  have disj: "set (keysOf m1) \<inter> fst ` set kvs = {}"
    using sub knot Cons.prems(4) kv by auto
  from Cons.IH [OF inv1 d inj disj] obtain m' where
    "runOps hk cc ss m1 (map (\<lambda>(k, v). OpSet k v) kvs) = Inr m'"
    "Size m' = Size m1 + int (length kvs)" by blast
  with s sz show ?case by (simp add: kv)
qed

lemma sum_list_nonzero: "sum_list (xs :: int list) \<noteq> 0 \<Longrightarrow> \<exists>x\<in>set xs. x \<noteq> 0"
  by (induction xs) (auto split: if_splits)

lemma countInv_not_leaf:
  assumes "countInv (Node c h k v cs)" and "\<not> isLeaf (Node c h k v cs)"
  shows "\<exists>t\<in>set cs. t \<noteq> NilMap"
proof -
  from assms have "sum_list (map Size cs) \<noteq> 0" by (simp add: isLeaf_def)
  from sum_list_nonzero [OF this] obtain t where t: "t \<in> set cs" "Size t \<noteq> 0" by auto
  from t(2) have "t \<noteq> NilMap" by auto
  with t(1) show ?thesis by blast
qed

lemma deleteLeftmost_countInv:
  "countInv t \<Longrightarrow> t \<noteq> NilMap \<Longrightarrow> \<exists>deleted rest. deleteLeftmost t = Inr (deleted, rest)"
proof (induction t)
  case NilMap
  then show ?case by simp
next
  case (Node c h k v cs)
  show ?case
  proof (cases "isLeaf (Node c h k v cs)")
    case True
    then show ?thesis by simp
  next
    case False
    from countInv_not_leaf [OF Node.prems(1) False] obtain t0 where "t0 \<in> set cs" "t0 \<noteq> NilMap"
      by blast
    with firstChild_None [of cs t0] obtain i where fc: "firstChild cs = Some i"
      by (cases "firstChild cs") auto
    from firstChild_Some [OF fc] have i: "i < length cs" and nn: "cs ! i \<noteq> NilMap" by auto
    from i have mem: "cs ! i \<in> set cs" by simp
    with Node.prems(1) have "countInv (cs ! i)" by simp
    from Node.IH [OF mem this nn] obtain deleted child where
      "deleteLeftmost (cs ! i) = Inr (deleted, child)" by blast
    with False fc show ?thesis by simp
  qed
qed

section \<open>The store model refines to the value model\<close>

lemma rep_frame:
  "rep cc hp A a t \<Longrightarrow> \<forall>b\<in>A. b < length hp \<longrightarrow> hp' ! b = hp ! b \<Longrightarrow> length hp \<le> length hp' \<Longrightarrow>
   rep cc hp' A a t"
proof (induction t arbitrary: a)
  case NilMap
  then show ?case by simp
next
  case (Node c h k v cs)
  from Node.prems(1) have a: "a \<in> A" "a < length hp" by simp_all
  with Node.prems(2) have eq: "hp' ! a = hp ! a" by simp
  have "\<forall>i<length cs. rep cc hp' A (node_children (hp ! a) ! i) (cs ! i)"
  proof (intro allI impI)
    fix i assume i: "i < length cs"
    with Node.prems(1) have "rep cc hp A (node_children (hp ! a) ! i) (cs ! i)" by simp
    from Node.IH [OF _ this Node.prems(2,3)] i
    show "rep cc hp' A (node_children (hp ! a) ! i) (cs ! i)" by simp
  qed
  with Node.prems(1,3) a show ?case by (simp add: eq)
qed

lemma rep_mono: "rep cc hp A a t \<Longrightarrow> A \<subseteq> B \<Longrightarrow> rep cc hp B a t"
proof (induction t arbitrary: a)
  case NilMap
  then show ?case by simp
next
  case (Node c h k v cs)
  have "\<forall>i<length cs. rep cc hp B (node_children (hp ! a) ! i) (cs ! i)"
  proof (intro allI impI)
    fix i assume i: "i < length cs"
    with Node.prems(1) have "rep cc hp A (node_children (hp ! a) ! i) (cs ! i)" by simp
    from Node.IH [OF _ this Node.prems(2)] i
    show "rep cc hp B (node_children (hp ! a) ! i) (cs ! i)" by simp
  qed
  with Node.prems show ?case by auto
qed

lemma rep_nil_iff: "rep cc hp A a t \<Longrightarrow> a = nilMap \<longleftrightarrow> t = NilMap"
  by (cases t) auto

lemma rep_Size: "sentinelOK cc hp \<Longrightarrow> rep cc hp A a t \<Longrightarrow> SizeH hp a = Size t"
  by (cases t) (auto simp: SizeH_def sentinelOK_def)

lemma rep_children_Size:
  assumes "sentinelOK cc hp" and "length rs = length cs"
    and "\<forall>i<length cs. rep cc hp A (rs ! i) (cs ! i)"
  shows "map (SizeH hp) rs = map Size cs"
  using assms by (auto intro!: nth_equalityI simp: rep_Size)

lemma foldl_SizeH:
  "foldl (\<lambda>count t. count + SizeH hp t) z rs = z + sum_list (map (SizeH hp) rs)"
  by (induction rs arbitrary: z) auto

lemma IsNilH_iff [simp]: "IsNilH a \<longleftrightarrow> a = nilMap"
  by (simp add: IsNilH_def)

lemma lookupLowLevelH_refines:
  "sentinelOK cc hp \<Longrightarrow> rep cc hp A a t \<Longrightarrow>
   lookupLowLevelH cc ss hp a ph hash = Some (lookupLowLevel cc ss t ph hash)"
proof (induction t arbitrary: a ph)
  case NilMap
  then show ?case by (subst lookupLowLevelH.simps) simp
next
  case (Node c h k v cs)
  note r = Node.prems(2)
  from r have a: "a \<noteq> nilMap" and hh: "node_hash (hp ! a) = h" and vv: "node_value (hp ! a) = v"
    and len: "length (node_children (hp ! a)) = length cs" by simp_all
  show ?case
  proof (cases "hash = h")
    case True
    then show ?thesis using a hh vv by (subst lookupLowLevelH.simps) simp
  next
    case False
    let ?i = "unat ph mod cc"
    show ?thesis
    proof (cases "?i < length cs")
      case True
      with r have "rep cc hp A (node_children (hp ! a) ! ?i) (cs ! ?i)" by simp
      from Node.IH [OF _ Node.prems(1) this] True
      have "lookupLowLevelH cc ss hp (node_children (hp ! a) ! ?i) (drop_bit ss ph) hash =
            Some (lookupLowLevel cc ss (cs ! ?i) (drop_bit ss ph) hash)" by simp
      then show ?thesis using False True a hh len
        by (subst lookupLowLevelH.simps) (simp add: Let_def)
    next
      case nr: False
      then show ?thesis using False a hh len
        by (subst lookupLowLevelH.simps) (simp add: Let_def)
    qed
  qed
qed

lemma foldr_max_ge: "x \<in> set xs \<Longrightarrow> x \<le> foldr max xs (0::nat)"
  by (induction xs) (auto simp: max_def)

lemma height_child: "i < length cs \<Longrightarrow> height (cs ! i) < height (Node c h k v cs)"
  using foldr_max_ge [of "height (cs ! i)" "map height cs"] by (simp add: less_Suc_eq_le)

lemma extends_refl [simp]: "extends hp hp"
  by (simp add: extends_def)

lemma extends_trans: "extends hp hp1 \<Longrightarrow> extends hp1 hp2 \<Longrightarrow> extends hp hp2"
  by (auto simp: extends_def)

lemma extends_append [simp]: "extends hp (hp @ xs)"
  by (simp add: extends_def nth_append)

lemma extends_update: "extends hp hp' \<Longrightarrow> length hp \<le> m \<Longrightarrow> extends hp (hp'[m := x])"
  by (auto simp: extends_def)

lemma extends_nth: "extends hp hp' \<Longrightarrow> b < length hp \<Longrightarrow> hp' ! b = hp ! b"
  by (simp add: extends_def)

lemma extends_length: "extends hp hp' \<Longrightarrow> length hp \<le> length hp'"
  by (simp add: extends_def)

lemma extends_take: "extends hp hp' \<Longrightarrow> take (length hp) hp' = hp"
  by (auto simp: extends_def intro: nth_equalityI)

lemma sentinelOK_extends: "sentinelOK cc hp \<Longrightarrow> extends hp hp' \<Longrightarrow> sentinelOK cc hp'"
  by (auto simp: sentinelOK_def extends_def nilMap_def)

lemma rep_extends:
  "rep cc hp A a t \<Longrightarrow> extends hp hp' \<Longrightarrow> rep cc hp' A a t"
  by (erule rep_frame) (auto simp: extends_def)

lemma recalculateCountH_length [simp]: "length (recalculateCountH hp m) = length hp"
  by (simp add: recalculateCountH_def)

lemma recalculateCountH_other: "b \<noteq> m \<Longrightarrow> recalculateCountH hp m ! b = hp ! b"
  by (simp add: recalculateCountH_def)

text \<open>
  The common last step of the three writers: a fresh cell \<open>m\<close> holds a copy \<open>x\<close> of some
  node, gets its children array \<open>rs\<close> and then its count recalculated.
\<close>

lemma rep_fresh_parent:
  assumes ok: "sentinelOK cc hp2"
    and m: "m < length hp2" "m \<noteq> nilMap" "m \<notin> B"
    and len: "length rs = cc" "length cs = cc"
    and reps: "\<forall>j<cc. rep cc hp2 B (rs ! j) (cs ! j)"
    and hp3: "hp3 = hp2[m := x\<lparr>node_children := rs\<rparr>]"
  shows "rep cc (recalculateCountH hp3 m) (insert m B) m
           (Node (1 + sum_list (map Size cs)) (node_hash x) (node_key x) (node_value x) cs)"
    and "\<forall>b. b \<noteq> m \<longrightarrow> recalculateCountH hp3 m ! b = hp2 ! b"
    and "length (recalculateCountH hp3 m) = length hp2"
proof -
  let ?hp4 = "recalculateCountH hp3 m"
  have len3: "length hp3 = length hp2" by (simp add: hp3)
  have other3: "b \<noteq> m \<Longrightarrow> hp3 ! b = hp2 ! b" for b by (simp add: hp3)
  have at3: "hp3 ! m = x\<lparr>node_children := rs\<rparr>" using m(1) by (simp add: hp3)
  have ok3: "sentinelOK cc hp3"
    using ok m(2) by (simp add: sentinelOK_def hp3)
  have neq: "b \<in> B \<Longrightarrow> b \<noteq> m" for b using m(3) by blast
  have fr3: "\<forall>b\<in>B. b < length hp2 \<longrightarrow> hp3 ! b = hp2 ! b"
    using neq other3 by simp
  have reps3: "\<forall>j<cc. rep cc hp3 B (rs ! j) (cs ! j)"
  proof (intro allI impI)
    fix j assume "j < cc"
    with reps have "rep cc hp2 B (rs ! j) (cs ! j)" by simp
    then show "rep cc hp3 B (rs ! j) (cs ! j)"
      by (rule rep_frame) (use fr3 len3 in simp_all)
  qed
  have "map (SizeH hp3) rs = map Size cs"
    by (rule rep_children_Size [OF ok3]) (use len reps3 in auto)
  then have cnt: "foldl (\<lambda>count t. count + SizeH hp3 t) 0 rs + 1 = 1 + sum_list (map Size cs)"
    by (simp add: foldl_SizeH)
  have at4: "?hp4 ! m = x\<lparr>node_children := rs, node_count := 1 + sum_list (map Size cs)\<rparr>"
    using m(1) len3 at3 cnt by (simp add: recalculateCountH_def)
  show other4: "\<forall>b. b \<noteq> m \<longrightarrow> ?hp4 ! b = hp2 ! b"
    by (simp add: recalculateCountH_other other3)
  show len4: "length ?hp4 = length hp2" by (simp add: len3)
  have reps4: "\<forall>j<cc. rep cc ?hp4 (insert m B) (rs ! j) (cs ! j)"
  proof (intro allI impI)
    fix j assume "j < cc"
    with reps have "rep cc hp2 B (rs ! j) (cs ! j)" by simp
    then have "rep cc ?hp4 B (rs ! j) (cs ! j)"
      by (rule rep_frame) (use neq other4 len4 in simp_all)
    then show "rep cc ?hp4 (insert m B) (rs ! j) (cs ! j)"
      by (rule rep_mono) auto
  qed
  show "rep cc ?hp4 (insert m B) m
           (Node (1 + sum_list (map Size cs)) (node_hash x) (node_key x) (node_value x) cs)"
    using m(1,2) len len4 reps4 by (simp add: at4)
qed

lemma cloneH_simp [simp]: "cloneH hp a = (hp @ [hp ! a], length hp)"
  by (simp add: cloneH_def)

lemma setLowLevelH_refines:
  assumes "sentinelOK cc hp" and "rep cc hp A a t" and "A \<subseteq> {..<length hp}"
  shows "\<exists>r. setLowLevelH cc ss hp a ph hash key val = Some r \<and>
           (case setLowLevel cc ss t ph hash key val of
              Inl e \<Rightarrow> r = Inl e
            | Inr t' \<Rightarrow>
                \<exists>hp' a'. r = Inr (hp', a') \<and> extends hp hp' \<and>
                  rep cc hp' (A \<union> {length hp..<length hp'}) a' t' \<and>
                  length hp' \<le> length hp + Suc (height t))"
  using assms
proof (induction t arbitrary: hp a ph A)
  case NilMap
  then have a: "a = nilMap" by simp
  let ?x = "\<lparr>node_count = 1, node_hash = hash, node_key = key, node_value = val,
             node_children = replicate cc nilMap\<rparr>"
  from NilMap.prems(1) have pos: "0 < length hp" and nil: "length hp \<noteq> nilMap"
    by (auto simp: sentinelOK_def nilMap_def)
  have res: "setLowLevelH cc ss hp a ph hash key val = Some (Inr (hp @ [?x], length hp))"
    using NilMap.prems(1) a by (subst setLowLevelH.simps) (simp add: sentinelOK_def nth_append)
  have "rep cc (hp @ [?x]) (A \<union> {length hp..<length (hp @ [?x])}) (length hp)
          (Node 1 hash key val (replicate cc NilMap))"
    using nil by simp
  with res show ?case by simp
next
  case (Node c h k v cs)
  note ok = Node.prems(1) and r = Node.prems(2) and A = Node.prems(3)
  from r have a: "a \<noteq> nilMap" "a < length hp" "a \<in> A"
    and flds: "node_count (hp ! a) = c" "node_hash (hp ! a) = h"
      "node_key (hp ! a) = k" "node_value (hp ! a) = v"
    and len: "length cs = cc" "length (node_children (hp ! a)) = cc"
    and reps: "\<forall>i<cc. rep cc hp A (node_children (hp ! a) ! i) (cs ! i)"
    by simp_all
  from ok have nil: "length hp \<noteq> nilMap" by (auto simp: sentinelOK_def nilMap_def)
  let ?m = "length hp"
  let ?hp1 = "hp @ [hp ! a]"
  have ext1: "extends hp ?hp1" by simp
  have ok1: "sentinelOK cc ?hp1" using ok ext1 by (rule sentinelOK_extends)
  show ?case
  proof (cases "hash = h")
    case True
    show ?thesis
    proof (cases "key = k")
      case False
      have "setLowLevelH cc ss hp a ph hash key val = Some (Inl (HashCollision k key))"
        using True False a flds by (subst setLowLevelH.simps) simp
      with True False show ?thesis by simp
    next
      case k: True
      let ?hp' = "hp @ [(hp ! a)\<lparr>node_value := val\<rparr>]"
      have res: "setLowLevelH cc ss hp a ph hash key val = Some (Inr (?hp', ?m))"
        using True k a flds by (subst setLowLevelH.simps) (simp add: nth_append)
      have ext: "extends hp ?hp'" by simp
      have "\<forall>i<cc. rep cc ?hp' (A \<union> {?m..<length ?hp'}) (node_children (hp ! a) ! i) (cs ! i)"
      proof (intro allI impI)
        fix i assume "i < cc"
        with reps have "rep cc hp A (node_children (hp ! a) ! i) (cs ! i)" by simp
        then have "rep cc ?hp' A (node_children (hp ! a) ! i) (cs ! i)"
          using ext by (rule rep_extends)
        then show "rep cc ?hp' (A \<union> {?m..<length ?hp'}) (node_children (hp ! a) ! i) (cs ! i)"
          by (rule rep_mono) auto
      qed
      then have "rep cc ?hp' (A \<union> {?m..<length ?hp'}) ?m (Node c h k val cs)"
        using nil flds len by simp
      with res ext True k show ?thesis by simp
    qed
  next
    case False
    let ?i = "unat ph mod cc"
    show ?thesis
    proof (cases "?i < cc")
      case nr: False
      have "setLowLevelH cc ss hp a ph hash key val = Some (Inl IndexOutOfRange)"
        using False nr a flds len by (subst setLowLevelH.simps) (simp add: nth_append Let_def)
      with False nr len show ?thesis by (simp add: Let_def)
    next
      case i: True
      let ?ai = "node_children (hp ! a) ! ?i"
      from i len have mem: "cs ! ?i \<in> set cs" by simp
      from reps i have "rep cc hp A ?ai (cs ! ?i)" by simp
      then have repi: "rep cc ?hp1 A ?ai (cs ! ?i)" using ext1 by (rule rep_extends)
      from A have A1: "A \<subseteq> {..<length ?hp1}" by auto
      from Node.IH [OF mem ok1 repi A1, of "drop_bit ss ph"] obtain r1 where
        r1: "setLowLevelH cc ss ?hp1 ?ai (drop_bit ss ph) hash key val = Some r1"
        and spec: "case setLowLevel cc ss (cs ! ?i) (drop_bit ss ph) hash key val of
              Inl e \<Rightarrow> r1 = Inl e
            | Inr t' \<Rightarrow>
                \<exists>hp' a'. r1 = Inr (hp', a') \<and> extends ?hp1 hp' \<and>
                  rep cc hp' (A \<union> {length ?hp1..<length hp'}) a' t' \<and>
                  length hp' \<le> length ?hp1 + Suc (height (cs ! ?i))"
        by blast
      have unfold: "setLowLevelH cc ss hp a ph hash key val =
          (case r1 of
             Inl e \<Rightarrow> Some (Inl e)
           | Inr (hp2, child) \<Rightarrow>
               Some (Inr (recalculateCountH
                  (hp2[?m := (hp2 ! ?m)\<lparr>node_children :=
                       (node_children (hp2 ! ?m))[?i := child]\<rparr>]) ?m, ?m)))"
        using False i a flds len r1
        by (subst setLowLevelH.simps) (simp add: nth_append Let_def)
      show ?thesis
      proof (cases "setLowLevel cc ss (cs ! ?i) (drop_bit ss ph) hash key val")
        case (Inl e)
        with spec have "r1 = Inl e" by simp
        with unfold Inl False i len show ?thesis by (simp add: Let_def)
      next
        case (Inr ti')
        with spec obtain hp2 child where r1': "r1 = Inr (hp2, child)"
          and ext2: "extends ?hp1 hp2"
          and repc: "rep cc hp2 (A \<union> {length ?hp1..<length hp2}) child ti'"
          and bnd: "length hp2 \<le> length ?hp1 + Suc (height (cs ! ?i))"
          by auto
        let ?B = "A \<union> {length ?hp1..<length hp2}"
        let ?rs = "(node_children (hp ! a))[?i := child]"
        let ?cs' = "cs[?i := ti']"
        from ext2 have at_m: "hp2 ! ?m = hp ! a"
          by (simp add: extends_def nth_append)
        from ext2 have len2: "?m < length hp2" by (simp add: extends_def)
        have ext02: "extends hp hp2" using ext1 ext2 by (rule extends_trans)
        have ok2: "sentinelOK cc hp2" using ok ext02 by (rule sentinelOK_extends)
        have mB: "?m \<notin> ?B" using A by auto
        have reps2: "\<forall>j<cc. rep cc hp2 ?B (?rs ! j) (?cs' ! j)"
        proof (intro allI impI)
          fix j assume j: "j < cc"
          show "rep cc hp2 ?B (?rs ! j) (?cs' ! j)"
          proof (cases "j = ?i")
            case True
            with repc j len show ?thesis by simp
          next
            case ne: False
            from reps j have "rep cc hp A (node_children (hp ! a) ! j) (cs ! j)" by simp
            then have "rep cc hp2 A (node_children (hp ! a) ! j) (cs ! j)"
              using ext02 by (rule rep_extends)
            then have "rep cc hp2 ?B (node_children (hp ! a) ! j) (cs ! j)"
              by (rule rep_mono) auto
            with ne show ?thesis by simp
          qed
        qed
        let ?hp3 = "hp2[?m := (hp ! a)\<lparr>node_children := ?rs\<rparr>]"
        let ?hp4 = "recalculateCountH ?hp3 ?m"
        note fp = rep_fresh_parent [OF ok2 len2 nil mB _ _ reps2 refl, of "hp ! a"]
        have rep4: "rep cc ?hp4 (insert ?m ?B) ?m (Node (1 + sum_list (map Size ?cs')) h k v ?cs')"
          using fp(1) len flds by simp
        have other4: "\<forall>b. b \<noteq> ?m \<longrightarrow> ?hp4 ! b = hp2 ! b" using fp(2) len by simp
        have len4: "length ?hp4 = length hp2" by simp
        have ext4: "extends hp ?hp4"
          unfolding extends_def using ext02 other4 len4 by (auto simp: extends_def)
        have "rep cc ?hp4 (A \<union> {?m..<length ?hp4}) ?m (Node (1 + sum_list (map Size ?cs')) h k v ?cs')"
          using rep4 by (rule rep_mono) (use len2 in auto)
        moreover have "setLowLevelH cc ss hp a ph hash key val = Some (Inr (?hp4, ?m))"
          using unfold r1' at_m by simp
        moreover have "setLowLevel cc ss (Node c h k v cs) ph hash key val =
            Inr (Node (1 + sum_list (map Size ?cs')) h k v ?cs')"
          using False i len Inr by (simp add: Let_def)
        moreover have "length ?hp4 \<le> length hp + Suc (height (Node c h k v cs))"
          using bnd height_child [of ?i cs c h k v] i len by simp
        ultimately show ?thesis using ext4 by (simp del: height.simps)
      qed
    qed
  qed
qed

lemma extends_fresh:
  assumes "extends hp H2" and "length hp \<le> m" and "\<forall>b. b \<noteq> m \<longrightarrow> hp4 ! b = H2 ! b"
    and "length hp4 = length H2"
  shows "extends hp hp4"
proof -
  have "\<forall>b<length hp. hp4 ! b = hp ! b"
  proof (intro allI impI)
    fix b assume b: "b < length hp"
    with assms(2) have "b \<noteq> m" by simp
    with assms(3) have "hp4 ! b = H2 ! b" by blast
    with assms(1) b show "hp4 ! b = hp ! b" by (simp add: extends_def)
  qed
  with assms(1,4) show ?thesis by (simp add: extends_def)
qed

lemma rep_frame_fresh:
  assumes "rep cc H2 B d t" and "m \<notin> B" and "\<forall>b. b \<noteq> m \<longrightarrow> hp4 ! b = H2 ! b"
    and "length hp4 = length H2"
  shows "rep cc hp4 B d t"
  using assms(1)
proof (rule rep_frame)
  show "\<forall>b\<in>B. b < length H2 \<longrightarrow> hp4 ! b = H2 ! b"
  proof (intro ballI impI)
    fix b assume "b \<in> B"
    with assms(2) have "b \<noteq> m" by blast
    with assms(3) show "hp4 ! b = H2 ! b" by blast
  qed
  show "length H2 \<le> length hp4" using assms(4) by simp
qed

lemma firstChildH_replicate [simp]: "firstChildH (replicate n nilMap) = None"
  by (induction n) auto

lemma firstChildH_rep:
  "length rs = length cs \<Longrightarrow> \<forall>i<length cs. rep cc hp A (rs ! i) (cs ! i) \<Longrightarrow>
   firstChildH rs = firstChild cs"
proof (induction rs cs rule: list_induct2)
  case Nil
  then show ?case by simp
next
  case (Cons r rs c cs)
  from Cons.prems have r0: "rep cc hp A r c" by auto
  from Cons.prems have "\<forall>i<length cs. rep cc hp A (rs ! i) (cs ! i)" by auto
  with Cons.IH have "firstChildH rs = firstChild cs" by simp
  with rep_nil_iff [OF r0] show ?case by simp
qed

lemma largestChildH_rep:
  "map (SizeH hp) rs = map Size cs \<Longrightarrow> largestChildH hp rs j p = largestChild cs j p"
proof (induction rs arbitrary: cs j p)
  case Nil
  then show ?case by (cases p) simp
next
  case (Cons r rs)
  then obtain c cs' where cs: "cs = c # cs'" by (cases cs) auto
  obtain i sz where p: "p = (i, sz)" by (cases p)
  from Cons.prems cs have "SizeH hp r = Size c" "map (SizeH hp) rs = map Size cs'" by simp_all
  with Cons.IH show ?case by (simp add: cs p)
qed

lemma deleteLeftmostH_refines:
  assumes "sentinelOK cc hp" and "rep cc hp A a t" and "A \<subseteq> {..<length hp}"
  shows "\<exists>r. deleteLeftmostH hp a = Some r \<and>
           (case deleteLeftmost t of
              Inl e \<Rightarrow> r = Inl e
            | Inr (del, rest) \<Rightarrow>
                \<exists>hp' d' r'. r = Inr (hp', d', r') \<and> extends hp hp' \<and>
                  rep cc hp' (A \<union> {length hp..<length hp'}) d' del \<and>
                  rep cc hp' (A \<union> {length hp..<length hp'}) r' rest \<and>
                  length hp' \<le> length hp + height t)"
  using assms
proof (induction t arbitrary: a)
  case NilMap
  then have "deleteLeftmostH hp a = Some (Inl NoChildren)"
    by (subst deleteLeftmostH.simps) (simp add: sentinelOK_def isLeafH_def SizeH_def)
  then show ?case by simp
next
  case (Node c h k v cs)
  note ok = Node.prems(1) and r = Node.prems(2) and A = Node.prems(3)
  from r have a: "a \<noteq> nilMap" "a < length hp" "a \<in> A"
    and flds: "node_count (hp ! a) = c" "node_hash (hp ! a) = h"
      "node_key (hp ! a) = k" "node_value (hp ! a) = v"
    and len: "length cs = cc" "length (node_children (hp ! a)) = cc"
    and reps: "\<forall>i<cc. rep cc hp A (node_children (hp ! a) ! i) (cs ! i)"
    by simp_all
  let ?t = "Node c h k v cs"
  have leaf: "isLeafH hp a \<longleftrightarrow> isLeaf ?t"
    by (simp add: isLeafH_def isLeaf_def SizeH_def flds)
  show ?case
  proof (cases "isLeaf ?t")
    case True
    have "deleteLeftmostH hp a = Some (Inr (hp, a, nilMap))"
      using True leaf by (subst deleteLeftmostH.simps) simp
    moreover have "rep cc hp (A \<union> {length hp..<length hp}) a ?t"
      using r by (rule rep_mono) auto
    ultimately show ?thesis using True by simp
  next
    case False
    have fc: "firstChildH (node_children (hp ! a)) = firstChild cs"
      by (rule firstChildH_rep) (use len reps in auto)
    show ?thesis
    proof (cases "firstChild cs")
      case None
      have "deleteLeftmostH hp a = Some (Inl NoChildren)"
        using False leaf fc None by (subst deleteLeftmostH.simps) simp
      with False None show ?thesis by simp
    next
      case (Some i)
      from firstChild_less [OF Some] len have i: "i < cc" by simp
      let ?ai = "node_children (hp ! a) ! i"
      from i len have mem: "cs ! i \<in> set cs" by simp
      from reps i have repi: "rep cc hp A ?ai (cs ! i)" by simp
      from Node.IH [OF mem ok repi A] obtain r1 where
        r1: "deleteLeftmostH hp ?ai = Some r1"
        and spec: "case deleteLeftmost (cs ! i) of
              Inl e \<Rightarrow> r1 = Inl e
            | Inr (del, rest) \<Rightarrow>
                \<exists>hp' d' r'. r1 = Inr (hp', d', r') \<and> extends hp hp' \<and>
                  rep cc hp' (A \<union> {length hp..<length hp'}) d' del \<and>
                  rep cc hp' (A \<union> {length hp..<length hp'}) r' rest \<and>
                  length hp' \<le> length hp + height (cs ! i)"
        by blast
      have unfold: "deleteLeftmostH hp a =
          (case r1 of
             Inl e \<Rightarrow> Some (Inl e)
           | Inr (hp1, deleted, child) \<Rightarrow>
               Some (Inr (recalculateCountH
                  (hp1 @ [(hp1 ! a)\<lparr>node_children := (node_children (hp1 ! a))[i := child]\<rparr>])
                  (length hp1), deleted, length hp1)))"
        using False leaf fc Some r1
        by (subst deleteLeftmostH.simps) (simp add: Let_def)
      show ?thesis
      proof (cases "deleteLeftmost (cs ! i)")
        case (Inl e)
        with spec have "r1 = Inl e" by simp
        with unfold Inl False Some show ?thesis by simp
      next
        case (Inr p)
        obtain del ti' where p: "p = (del, ti')" by (cases p)
        with spec Inr obtain hp1 d' child where r1': "r1 = Inr (hp1, d', child)"
          and ext1: "extends hp hp1"
          and repd: "rep cc hp1 (A \<union> {length hp..<length hp1}) d' del"
          and repc: "rep cc hp1 (A \<union> {length hp..<length hp1}) child ti'"
          and bnd: "length hp1 \<le> length hp + height (cs ! i)"
          by auto
        let ?B = "A \<union> {length hp..<length hp1}"
        let ?m = "length hp1"
        let ?H2 = "hp1 @ [hp1 ! a]"
        let ?rs = "(node_children (hp ! a))[i := child]"
        let ?cs' = "cs[i := ti']"
        from ext1 a have at_a: "hp1 ! a = hp ! a" by (simp add: extends_def)
        have ext12: "extends hp1 ?H2" by simp
        have ext02: "extends hp ?H2" using ext1 ext12 by (rule extends_trans)
        have ok2: "sentinelOK cc ?H2" using ok ext02 by (rule sentinelOK_extends)
        from ext1 ok have nil: "?m \<noteq> nilMap"
          by (auto simp: sentinelOK_def nilMap_def extends_def)
        have mB: "?m \<notin> ?B" using A ext1 by (auto simp: extends_def)
        have reps2: "\<forall>j<cc. rep cc ?H2 ?B (?rs ! j) (?cs' ! j)"
        proof (intro allI impI)
          fix j assume j: "j < cc"
          show "rep cc ?H2 ?B (?rs ! j) (?cs' ! j)"
          proof (cases "j = i")
            case True
            from repc have "rep cc ?H2 ?B child ti'" using ext12 by (rule rep_extends)
            with True j len show ?thesis by simp
          next
            case ne: False
            from reps j have "rep cc hp A (node_children (hp ! a) ! j) (cs ! j)" by simp
            then have "rep cc ?H2 A (node_children (hp ! a) ! j) (cs ! j)"
              using ext02 by (rule rep_extends)
            then have "rep cc ?H2 ?B (node_children (hp ! a) ! j) (cs ! j)"
              by (rule rep_mono) auto
            with ne show ?thesis by simp
          qed
        qed
        let ?hp3 = "?H2[?m := (hp ! a)\<lparr>node_children := ?rs\<rparr>]"
        let ?hp4 = "recalculateCountH ?hp3 ?m"
        have lenm: "?m < length ?H2" by simp
        note fp = rep_fresh_parent [OF ok2 lenm nil mB _ _ reps2 refl, of "hp ! a"]
        have rep4: "rep cc ?hp4 (insert ?m ?B) ?m (Node (1 + sum_list (map Size ?cs')) h k v ?cs')"
          using fp(1) len flds by simp
        have other4: "\<forall>b. b \<noteq> ?m \<longrightarrow> ?hp4 ! b = ?H2 ! b" using fp(2) len by simp
        have len4: "length ?hp4 = length ?H2" by simp
        have ext4: "extends hp ?hp4"
          by (rule extends_fresh [OF ext02 extends_length [OF ext1] other4 len4])
        have sub: "insert ?m ?B \<subseteq> A \<union> {length hp..<length ?hp4}"
          using ext1 by (auto simp: extends_def)
        have rest: "rep cc ?hp4 (A \<union> {length hp..<length ?hp4}) ?m
            (Node (1 + sum_list (map Size ?cs')) h k v ?cs')"
          using rep4 sub by (rule rep_mono)
        from repd have "rep cc ?H2 ?B d' del" using ext12 by (rule rep_extends)
        then have "rep cc ?hp4 ?B d' del"
          using mB other4 len4 by (rule rep_frame_fresh)
        then have deld: "rep cc ?hp4 (A \<union> {length hp..<length ?hp4}) d' del"
          by (rule rep_mono) (use sub in auto)
        have "deleteLeftmostH hp a = Some (Inr (?hp4, d', ?m))"
          using unfold r1' at_a by simp
        moreover have "deleteLeftmost ?t = Inr (del, Node (1 + sum_list (map Size ?cs')) h k v ?cs')"
          using False Some Inr p by simp
        moreover have "length ?hp4 \<le> length hp + height ?t"
          using bnd height_child [of i cs c h k v] i len by simp
        ultimately show ?thesis using ext4 rest deld by (simp del: height.simps)
      qed
    qed
  qed
qed

text \<open>
  Cloning a node \<open>x\<close> into a fresh cell after a recursive call, installing the children
  \<open>rs0\<close> of the old node with slot \<open>i\<close> replaced, and recalculating the count.
\<close>

lemma clone_replace_child:
  assumes ok: "sentinelOK cc hp" and ext1: "extends hp hp1" and A: "A \<subseteq> {..<length hp}"
    and len: "length rs0 = cc" "length cs = cc" and i: "i < cc"
    and reps: "\<forall>j<cc. rep cc hp A (rs0 ! j) (cs ! j)"
    and repc: "rep cc hp1 (A \<union> {length hp..<length hp1}) child ti'"
    and hp4: "hp4 = recalculateCountH (hp1 @ [x\<lparr>node_children := rs0[i := child]\<rparr>]) (length hp1)"
  shows "rep cc hp4 (A \<union> {length hp..<length hp4}) (length hp1)
           (Node (1 + sum_list (map Size (cs[i := ti']))) (node_hash x) (node_key x) (node_value x)
              (cs[i := ti']))"
    and "extends hp hp4"
    and "\<And>d t. rep cc hp1 (A \<union> {length hp..<length hp1}) d t \<Longrightarrow>
           rep cc hp4 (A \<union> {length hp..<length hp4}) d t"
    and "length hp4 = Suc (length hp1)"
proof -
  let ?B = "A \<union> {length hp..<length hp1}"
  let ?m = "length hp1"
  let ?H2 = "hp1 @ [x]"
  let ?rs = "rs0[i := child]"
  let ?cs' = "cs[i := ti']"
  have ext12: "extends hp1 ?H2" by simp
  have ext02: "extends hp ?H2" using ext1 ext12 by (rule extends_trans)
  have ok2: "sentinelOK cc ?H2" using ok ext02 by (rule sentinelOK_extends)
  from ext1 ok have nil: "?m \<noteq> nilMap"
    by (auto simp: sentinelOK_def nilMap_def extends_def)
  have mB: "?m \<notin> ?B" using A ext1 by (auto simp: extends_def)
  have reps2: "\<forall>j<cc. rep cc ?H2 ?B (?rs ! j) (?cs' ! j)"
  proof (intro allI impI)
    fix j assume j: "j < cc"
    show "rep cc ?H2 ?B (?rs ! j) (?cs' ! j)"
    proof (cases "j = i")
      case True
      from repc have "rep cc ?H2 ?B child ti'" using ext12 by (rule rep_extends)
      with True j len show ?thesis by simp
    next
      case ne: False
      from reps j have "rep cc hp A (rs0 ! j) (cs ! j)" by simp
      then have "rep cc ?H2 A (rs0 ! j) (cs ! j)"
        using ext02 by (rule rep_extends)
      then have "rep cc ?H2 ?B (rs0 ! j) (cs ! j)"
        by (rule rep_mono) auto
      with ne show ?thesis by simp
    qed
  qed
  have lenm: "?m < length ?H2" by simp
  have hp4': "hp4 = recalculateCountH (?H2[?m := x\<lparr>node_children := ?rs\<rparr>]) ?m"
    by (simp add: hp4)
  note fp = rep_fresh_parent [OF ok2 lenm nil mB _ _ reps2 refl, of x]
  have rep4: "rep cc hp4 (insert ?m ?B) ?m
      (Node (1 + sum_list (map Size ?cs')) (node_hash x) (node_key x) (node_value x) ?cs')"
    unfolding hp4' using fp(1) len by simp
  have other4: "\<forall>b. b \<noteq> ?m \<longrightarrow> hp4 ! b = ?H2 ! b"
    unfolding hp4' using fp(2) len by simp
  have len4: "length hp4 = length ?H2" by (simp add: hp4)
  show "extends hp hp4"
    by (rule extends_fresh [OF ext02 extends_length [OF ext1] other4 len4])
  have sub: "insert ?m ?B \<subseteq> A \<union> {length hp..<length hp4}"
    using ext1 len4 by (auto simp: extends_def)
  show "rep cc hp4 (A \<union> {length hp..<length hp4}) ?m
      (Node (1 + sum_list (map Size ?cs')) (node_hash x) (node_key x) (node_value x) ?cs')"
    using rep4 sub by (rule rep_mono)
  show "rep cc hp4 (A \<union> {length hp..<length hp4}) d t"
    if "rep cc hp1 ?B d t" for d t
  proof -
    from that have "rep cc ?H2 ?B d t" using ext12 by (rule rep_extends)
    then have "rep cc hp4 ?B d t"
      using mB other4 len4 by (rule rep_frame_fresh)
    then show ?thesis by (rule rep_mono) (use sub in auto)
  qed
  show "length hp4 = Suc (length hp1)" using len4 by simp
qed

lemma replaceChildren_rep:
  assumes "sentinelOK cc hp" and "rep cc hp B a t"
  shows "recalculateCount (replaceChildren t cs) =
         Node (1 + sum_list (map Size cs)) (node_hash (hp ! a)) (node_key (hp ! a))
           (node_value (hp ! a)) cs"
  using assms by (cases t) (auto simp: sentinelOK_def)

lemma deleteLowLevelH_refines:
  assumes "sentinelOK cc hp" and "rep cc hp A a t" and "A \<subseteq> {..<length hp}"
  shows "\<exists>r. deleteLowLevelH cc ss hp a ph hash = Some r \<and>
           (case deleteLowLevel cc ss t ph hash of
              Inl e \<Rightarrow> r = Inl e
            | Inr (t', found) \<Rightarrow>
                \<exists>hp' a'. r = Inr (hp', a', found) \<and> extends hp hp' \<and>
                  rep cc hp' (A \<union> {length hp..<length hp'}) a' t' \<and>
                  length hp' \<le> length hp + height t)"
  using assms
proof (induction t arbitrary: a ph)
  case NilMap
  then have "deleteLowLevelH cc ss hp a ph hash = Some (Inr (hp, a, False))"
    by (subst deleteLowLevelH.simps) simp
  with NilMap.prems show ?case by simp
next
  case (Node c h k v cs)
  note ok = Node.prems(1) and r = Node.prems(2) and A = Node.prems(3)
  from r have a: "a \<noteq> nilMap" "a < length hp" "a \<in> A"
    and flds: "node_count (hp ! a) = c" "node_hash (hp ! a) = h"
      "node_key (hp ! a) = k" "node_value (hp ! a) = v"
    and len: "length cs = cc" "length (node_children (hp ! a)) = cc"
    and reps: "\<forall>i<cc. rep cc hp A (node_children (hp ! a) ! i) (cs ! i)"
    by simp_all
  let ?t = "Node c h k v cs"
  let ?rs0 = "node_children (hp ! a)"
  have leaf: "isLeafH hp a \<longleftrightarrow> isLeaf ?t"
    by (simp add: isLeafH_def isLeaf_def SizeH_def flds)
  show ?case
  proof (cases "hash = h")
    case False
    let ?i = "unat ph mod cc"
    show ?thesis
    proof (cases "?i < cc")
      case nr: False
      have "deleteLowLevelH cc ss hp a ph hash = Some (Inl IndexOutOfRange)"
        using False nr a flds len by (subst deleteLowLevelH.simps) (simp add: Let_def)
      with False nr len show ?thesis by (simp add: Let_def)
    next
      case i: True
      let ?ai = "?rs0 ! ?i"
      from i len have mem: "cs ! ?i \<in> set cs" by simp
      from reps i have repi: "rep cc hp A ?ai (cs ! ?i)" by simp
      from Node.IH [OF mem ok repi A, of "drop_bit ss ph"] obtain r1 where
        r1: "deleteLowLevelH cc ss hp ?ai (drop_bit ss ph) hash = Some r1"
        and spec: "case deleteLowLevel cc ss (cs ! ?i) (drop_bit ss ph) hash of
              Inl e \<Rightarrow> r1 = Inl e
            | Inr (t', found) \<Rightarrow>
                \<exists>hp' a'. r1 = Inr (hp', a', found) \<and> extends hp hp' \<and>
                  rep cc hp' (A \<union> {length hp..<length hp'}) a' t' \<and>
                  length hp' \<le> length hp + height (cs ! ?i)"
        by blast
      have unfold: "deleteLowLevelH cc ss hp a ph hash =
          (case r1 of
             Inl e \<Rightarrow> Some (Inl e)
           | Inr (hp1, child, found) \<Rightarrow>
               if \<not> found then Some (Inr (hp1, a, False))
               else Some (Inr (recalculateCountH
                  (hp1 @ [(hp1 ! a)\<lparr>node_children := (node_children (hp1 ! a))[?i := child]\<rparr>])
                  (length hp1), length hp1, True)))"
        using False i a flds len r1
        by (subst deleteLowLevelH.simps) (simp add: Let_def split: sum.split cong: if_cong)
      show ?thesis
      proof (cases "deleteLowLevel cc ss (cs ! ?i) (drop_bit ss ph) hash")
        case (Inl e)
        with spec have "r1 = Inl e" by simp
        with unfold Inl False i len show ?thesis by (simp add: Let_def)
      next
        case (Inr p)
        obtain ti' found where p: "p = (ti', found)" by (cases p)
        with spec Inr obtain hp1 child where r1': "r1 = Inr (hp1, child, found)"
          and ext1: "extends hp hp1"
          and repc: "rep cc hp1 (A \<union> {length hp..<length hp1}) child ti'"
          and bnd: "length hp1 \<le> length hp + height (cs ! ?i)"
          by auto
        have hlt: "height (cs ! ?i) < height ?t"
          using height_child [of ?i cs c h k v] i len by simp
        from ext1 a have at_a: "hp1 ! a = hp ! a" by (simp add: extends_def)
        show ?thesis
        proof (cases found)
          case nf: False
          have heq: "deleteLowLevelH cc ss hp a ph hash = Some (Inr (hp1, a, False))"
            using unfold r1' nf by simp
          have peq: "deleteLowLevel cc ss ?t ph hash = Inr (?t, False)"
            using False i len Inr p nf by (simp add: Let_def)
          have "rep cc hp1 (A \<union> {length hp..<length hp1}) a ?t"
            by (rule rep_mono [OF rep_extends [OF r ext1]]) auto
          then show ?thesis using ext1 nf bnd hlt
            by (simp add: heq peq del: rep.simps deleteLowLevel.simps height.simps)
        next
          case f: True
          let ?hp4 = "recalculateCountH
                  (hp1 @ [(hp ! a)\<lparr>node_children := ?rs0[?i := child]\<rparr>]) (length hp1)"
          let ?cs' = "cs[?i := ti']"
          note cr = clone_replace_child [where x = "hp ! a", OF ok ext1 A len(2,1) i reps repc refl]
          have heq: "deleteLowLevelH cc ss hp a ph hash = Some (Inr (?hp4, length hp1, True))"
            using unfold r1' f at_a by simp
          have peq: "deleteLowLevel cc ss ?t ph hash =
              Inr (Node (1 + sum_list (map Size ?cs')) h k v ?cs', True)"
            using False i len Inr p f by (simp add: Let_def)
          from cr(1) have "rep cc ?hp4 (A \<union> {length hp..<length ?hp4}) (length hp1)
              (Node (1 + sum_list (map Size ?cs')) h k v ?cs')"
            by (simp add: flds del: rep.simps)
          then show ?thesis using cr(2,4) f bnd hlt
            by (simp add: heq peq del: rep.simps deleteLowLevel.simps height.simps)
        qed
      qed
    qed
  next
    case True
    show ?thesis
    proof (cases "isLeaf ?t")
      case l: True
      have "deleteLowLevelH cc ss hp a ph hash = Some (Inr (hp, nilMap, True))"
        using True l leaf a flds by (subst deleteLowLevelH.simps) simp
      with True l show ?thesis by simp
    next
      case nl: False
      have szs: "map (SizeH hp) ?rs0 = map Size cs"
        by (rule rep_children_Size [OF ok]) (use len reps in auto)
      have lc: "largestChildH hp ?rs0 0 (- 1, - 1) = largestChild cs 0 (- 1, - 1)"
        using szs by (rule largestChildH_rep)
      let ?li = "fst (largestChild cs 0 (- 1, - 1))"
      show ?thesis
      proof (cases "0 \<le> ?li \<and> nat ?li < cc")
        case nr: False
        have "deleteLowLevelH cc ss hp a ph hash = Some (Inl IndexOutOfRange)"
          using True nl leaf a flds len lc nr
          by (subst deleteLowLevelH.simps) (auto simp: Let_def)
        with True nl nr len show ?thesis by (auto simp: Let_def)
      next
        case li: True
        let ?i = "nat ?li"
        from li have i: "?i < cc" by simp
        let ?ai = "?rs0 ! ?i"
        from reps i have repi: "rep cc hp A ?ai (cs ! ?i)" by simp
        from deleteLeftmostH_refines [OF ok repi A] obtain r1 where
          r1: "deleteLeftmostH hp ?ai = Some r1"
          and spec: "case deleteLeftmost (cs ! ?i) of
              Inl e \<Rightarrow> r1 = Inl e
            | Inr (del, rest) \<Rightarrow>
                \<exists>hp' d' r'. r1 = Inr (hp', d', r') \<and> extends hp hp' \<and>
                  rep cc hp' (A \<union> {length hp..<length hp'}) d' del \<and>
                  rep cc hp' (A \<union> {length hp..<length hp'}) r' rest \<and>
                  length hp' \<le> length hp + height (cs ! ?i)"
          by blast
        have unfold: "deleteLowLevelH cc ss hp a ph hash =
          (case r1 of
             Inl e \<Rightarrow> Some (Inl e)
           | Inr (hp1, replacement, child) \<Rightarrow>
               Some (Inr (recalculateCountH
                  (hp1 @ [(hp1 ! replacement)\<lparr>node_children :=
                       (node_children ((hp1 @ [hp1 ! replacement]) ! a))[?i := child]\<rparr>])
                  (length hp1), length hp1, True)))"
          using True nl leaf a flds len lc li r1
          by (subst deleteLowLevelH.simps) (simp add: Let_def)
        show ?thesis
        proof (cases "deleteLeftmost (cs ! ?i)")
          case (Inl e)
          with spec have "r1 = Inl e" by simp
          with unfold Inl True nl li len show ?thesis by (simp add: Let_def)
        next
          case (Inr p)
          obtain del ti' where p: "p = (del, ti')" by (cases p)
          with spec Inr obtain hp1 rp child where r1': "r1 = Inr (hp1, rp, child)"
            and ext1: "extends hp hp1"
            and repd: "rep cc hp1 (A \<union> {length hp..<length hp1}) rp del"
            and repc: "rep cc hp1 (A \<union> {length hp..<length hp1}) child ti'"
            and bnd: "length hp1 \<le> length hp + height (cs ! ?i)"
            by auto
          have hlt: "height (cs ! ?i) < height ?t"
            using height_child [of ?i cs c h k v] i len by simp
          from ext1 a have at_a: "(hp1 @ [hp1 ! rp]) ! a = hp ! a"
            by (simp add: extends_def nth_append)
          have ok1: "sentinelOK cc hp1" using ok ext1 by (rule sentinelOK_extends)
          let ?hp4 = "recalculateCountH
                  (hp1 @ [(hp1 ! rp)\<lparr>node_children := ?rs0[?i := child]\<rparr>]) (length hp1)"
          let ?cs' = "cs[?i := ti']"
          note cr = clone_replace_child [where x = "hp1 ! rp", OF ok ext1 A len(2,1) i reps repc refl]
          have heq: "deleteLowLevelH cc ss hp a ph hash = Some (Inr (?hp4, length hp1, True))"
            using unfold r1' at_a by simp
          have peq: "deleteLowLevel cc ss ?t ph hash =
              Inr (recalculateCount (replaceChildren del ?cs'), True)"
            using True nl li len Inr p by (simp add: Let_def)
          from cr(1) have "rep cc ?hp4 (A \<union> {length hp..<length ?hp4}) (length hp1)
              (recalculateCount (replaceChildren del ?cs'))"
            by (simp add: replaceChildren_rep [OF ok1 repd, of ?cs'] del: rep.simps)
          then show ?thesis using cr(2,4) bnd hlt
            by (simp add: heq peq del: rep.simps deleteLowLevel.simps height.simps)
        qed
      qed
    qed
  qed
qed

lemma forEachChildrenH_step:
  assumes "i < length (node_children (hp ! m))"
  shows "forEachChildrenH hp f m i s =
     (let t = node_children (hp ! m) ! i
      in if t \<noteq> nilMap then
           do {
             r \<leftarrow> ForEachH hp t f s;
             (case r of
                Inl e \<Rightarrow> Some (Inl e)
              | Inr s2 \<Rightarrow> forEachChildrenH hp f m (Suc i) s2)
           }
         else forEachChildrenH hp f m (Suc i) s)"
  by (rule trans [OF forEachChildrenH.simps])
     (use assms in \<open>simp add: ForEachH_def Let_def split: sum.split\<close>)

lemma forEachChildrenH_done:
  assumes "\<not> i < length (node_children (hp ! m))"
  shows "forEachChildrenH hp f m i s = Some (Inr s)"
  by (rule trans [OF forEachChildrenH.simps]) (use assms in simp)

lemma ForEachH_refines:
  "sentinelOK cc hp \<Longrightarrow> rep cc hp A a t \<Longrightarrow> ForEachH hp a f s = Some (ForEach t f s)"
proof (induction t arbitrary: a s)
  case NilMap
  then show ?case by (simp add: ForEachH_def)
next
  case (Node c h k v cs)
  note ok = Node.prems(1) and r = Node.prems(2)
  from r have a: "a \<noteq> nilMap"
    and flds: "node_key (hp ! a) = k" "node_value (hp ! a) = v"
    and len: "length cs = cc" "length (node_children (hp ! a)) = cc"
    and reps: "\<forall>i<cc. rep cc hp A (node_children (hp ! a) ! i) (cs ! i)"
    by simp_all
  have loop: "forEachChildrenH hp f a i s1 = Some (forEachChildren (drop i cs) f s1)" for i s1
  proof (induction "cc - i" arbitrary: i s1)
    case 0
    then have "\<not> i < length (node_children (hp ! a))" using len by simp
    from forEachChildrenH_done [OF this] 0 len show ?case by simp
  next
    case (Suc n)
    then have i: "i < cc" by simp
    let ?ai = "node_children (hp ! a) ! i"
    from i len have mem: "cs ! i \<in> set cs" by simp
    from reps i have repi: "rep cc hp A ?ai (cs ! i)" by simp
    have dr: "drop i cs = cs ! i # drop (Suc i) cs"
      using i len by (simp add: Cons_nth_drop_Suc)
    from Suc.hyps(2) have n: "n = cc - Suc i" by simp
    note IHloop = Suc.hyps(1) [OF n]
    note IHchild = Node.IH [OF mem ok repi]
    from i len have i': "i < length (node_children (hp ! a))" by simp
    show ?case
      unfolding forEachChildrenH_step [OF i'] dr
      using rep_nil_iff [OF repi] IHloop IHchild
      by (simp add: Let_def split: sum.split)
  qed
  show ?case
    using a flds loop [of 0] by (simp add: ForEachH_def split: sum.split)
qed

lemma KeysH_refines:
  assumes "sentinelOK cc hp" and "rep cc hp A a t"
  shows "KeysH hp a = Some (Keys t)"
proof -
  let ?f = "\<lambda>k v (keys :: string list, i).
              if i < length keys then Inr (keys[i := k], Suc i) else Inl IndexOutOfRange"
  have "ForEachH hp a ?f (replicate (nat (Size t)) [], 0) =
        Some (ForEach t ?f (replicate (nat (Size t)) [], 0))"
    using assms by (rule ForEachH_refines)
  then show ?thesis
    by (simp add: KeysH_def Keys_def rep_Size [OF assms] split: sum.split)
qed

lemma LookupH_refines:
  assumes "sentinelOK cc hp" and "rep cc hp A a t"
  shows "LookupH hk cc ss hp a k = Some (Lookup hk cc ss t k)"
  using lookupLowLevelH_refines [OF assms] by (simp add: LookupH_def Lookup_def Let_def)

lemma SetH_refines:
  assumes "sentinelOK cc hp" and "rep cc hp A a t" and "A \<subseteq> {..<length hp}"
  shows "\<exists>r. SetH hk cc ss hp a k v = Some r \<and>
           (case Set hk cc ss t k v of
              Inl e \<Rightarrow> r = Inl e
            | Inr t' \<Rightarrow>
                \<exists>hp' a'. r = Inr (hp', a') \<and> extends hp hp' \<and>
                  rep cc hp' (A \<union> {length hp..<length hp'}) a' t' \<and>
                  length hp' \<le> length hp + Suc (height t))"
  using setLowLevelH_refines [OF assms, of ss "hk k" "hk k" k v]
  by (simp add: SetH_def Set_def Let_def)

lemma DeleteH_refines:
  assumes "sentinelOK cc hp" and "rep cc hp A a t" and "A \<subseteq> {..<length hp}"
  shows "\<exists>r. DeleteH hk cc ss hp a k = Some r \<and>
           (case Delete hk cc ss t k of
              Inl e \<Rightarrow> r = Inl e
            | Inr t' \<Rightarrow>
                \<exists>hp' a'. r = Inr (hp', a') \<and> extends hp hp' \<and>
                  rep cc hp' (A \<union> {length hp..<length hp'}) a' t' \<and>
                  length hp' \<le> length hp + height t)"
proof -
  from deleteLowLevelH_refines [OF assms, of ss "hk k" "hk k"] obtain r1 where
    r1: "deleteLowLevelH cc ss hp a (hk k) (hk k) = Some r1"
    and spec: "case deleteLowLevel cc ss t (hk k) (hk k) of
              Inl e \<Rightarrow> r1 = Inl e
            | Inr (t', found) \<Rightarrow>
                \<exists>hp' a'. r1 = Inr (hp', a', found) \<and> extends hp hp' \<and>
                  rep cc hp' (A \<union> {length hp..<length hp'}) a' t' \<and>
                  length hp' \<le> length hp + height t"
    by blast
  show ?thesis
  proof (cases "deleteLowLevel cc ss t (hk k) (hk k)")
    case (Inl e)
    with spec r1 show ?thesis by (simp add: DeleteH_def Delete_def Let_def)
  next
    case (Inr p)
    obtain t' found where p: "p = (t', found)" by (cases p)
    with spec Inr obtain hp' a' where "r1 = Inr (hp', a', found)" "extends hp hp'"
      "rep cc hp' (A \<union> {length hp..<length hp'}) a' t'"
      "length hp' \<le> length hp + height t" by auto
    with r1 Inr p show ?thesis by (simp add: DeleteH_def Delete_def Let_def)
  qed
qed

lemma write_extends:
  assumes "sentinelOK cc hp" and "rep cc hp {..<length hp} m1 t1"
    and "SetH hk cc ss hp m1 k v = Some (Inr (hp', m2)) \<or>
         DeleteH hk cc ss hp m1 k = Some (Inr (hp', m2))"
  shows "extends hp hp'" and "length hp' \<le> length hp + Suc (height t1)"
proof -
  have "extends hp hp' \<and> length hp' \<le> length hp + Suc (height t1)"
    using assms(3)
  proof
    assume s: "SetH hk cc ss hp m1 k v = Some (Inr (hp', m2))"
    from SetH_refines [OF assms(1,2) subset_refl, of hk ss k v] s
    show ?thesis by (cases "Set hk cc ss t1 k v") auto
  next
    assume d: "DeleteH hk cc ss hp m1 k = Some (Inr (hp', m2))"
    from DeleteH_refines [OF assms(1,2) subset_refl, of hk ss k] d
    show ?thesis by (cases "Delete hk cc ss t1 k") auto
  qed
  then show "extends hp hp'" and "length hp' \<le> length hp + Suc (height t1)" by simp_all
qed

lemma rep_write_all:
  assumes "rep cc hp' ({..<length hp} \<union> {length hp..<length hp'}) a t" and "extends hp hp'"
  shows "rep cc hp' {..<length hp'} a t"
  using assms(1) by (rule rep_mono) (use extends_length [OF assms(2)] in auto)

lemma runOpsH_refines:
  "sentinelOK cc hp \<Longrightarrow> rep cc hp {..<length hp} m t \<Longrightarrow>
   \<exists>r. runOpsH hk cc ss hp m ops = Some r \<and>
       (case runOps hk cc ss t ops of
          Inl e \<Rightarrow> r = Inl e
        | Inr t' \<Rightarrow>
            \<exists>hp' m'. r = Inr (hp', m') \<and> extends hp hp' \<and> rep cc hp' {..<length hp'} m' t')"
proof (induction ops arbitrary: hp m t)
  case Nil
  then show ?case by simp
next
  case (Cons op ops)
  note ok = Cons.prems(1) and r = Cons.prems(2)
  show ?case
  proof (cases op)
    case (OpSet k v)
    from SetH_refines [OF ok r subset_refl, of hk ss k v] obtain r1 where
      r1: "SetH hk cc ss hp m k v = Some r1"
      and spec: "case Set hk cc ss t k v of
              Inl e \<Rightarrow> r1 = Inl e
            | Inr t' \<Rightarrow>
                \<exists>hp' a'. r1 = Inr (hp', a') \<and> extends hp hp' \<and>
                  rep cc hp' ({..<length hp} \<union> {length hp..<length hp'}) a' t' \<and>
                  length hp' \<le> length hp + Suc (height t)"
      by blast
    show ?thesis
    proof (cases "Set hk cc ss t k v")
      case (Inl e)
      with spec r1 OpSet show ?thesis by simp
    next
      case (Inr t1)
      with spec obtain hp1 m1 where r1': "r1 = Inr (hp1, m1)" and ext1: "extends hp hp1"
        and rep1: "rep cc hp1 ({..<length hp} \<union> {length hp..<length hp1}) m1 t1"
        by auto
      from Cons.IH [OF sentinelOK_extends [OF ok ext1] rep_write_all [OF rep1 ext1]]
      obtain r2 where r2: "runOpsH hk cc ss hp1 m1 ops = Some r2"
        and spec2: "case runOps hk cc ss t1 ops of
          Inl e \<Rightarrow> r2 = Inl e
        | Inr t' \<Rightarrow>
            \<exists>hp' m'. r2 = Inr (hp', m') \<and> extends hp1 hp' \<and> rep cc hp' {..<length hp'} m' t'"
        by blast
      show ?thesis
      proof (cases "runOps hk cc ss t1 ops")
        case e: (Inl e)
        with spec2 r2 r1 r1' Inr OpSet show ?thesis by simp
      next
        case t': (Inr t')
        with spec2 obtain hp' m' where "r2 = Inr (hp', m')" "extends hp1 hp'"
          "rep cc hp' {..<length hp'} m' t'" by auto
        with r2 r1 r1' Inr OpSet t' extends_trans [OF ext1] show ?thesis
          by (auto simp del: rep.simps)
      qed
    qed
  next
    case (OpDelete k)
    from DeleteH_refines [OF ok r subset_refl, of hk ss k] obtain r1 where
      r1: "DeleteH hk cc ss hp m k = Some r1"
      and spec: "case Delete hk cc ss t k of
              Inl e \<Rightarrow> r1 = Inl e
            | Inr t' \<Rightarrow>
                \<exists>hp' a'. r1 = Inr (hp', a') \<and> extends hp hp' \<and>
                  rep cc hp' ({..<length hp} \<union> {length hp..<length hp'}) a' t' \<and>
                  length hp' \<le> length hp + height t"
      by blast
    show ?thesis
    proof (cases "Delete hk cc ss t k")
      case (Inl e)
      with spec r1 OpDelete show ?thesis by simp
    next
      case (Inr t1)
      with spec obtain hp1 m1 where r1': "r1 = Inr (hp1, m1)" and ext1: "extends hp hp1"
        and rep1: "rep cc hp1 ({..<length hp} \<union> {length hp..<length hp1}) m1 t1"
        by auto
      from Cons.IH [OF sentinelOK_extends [OF ok ext1] rep_write_all [OF rep1 ext1]]
      obtain r2 where r2: "runOpsH hk cc ss hp1 m1 ops = Some r2"
        and spec2: "case runOps hk cc ss t1 ops of
          Inl e \<Rightarrow> r2 = Inl e
        | Inr t' \<Rightarrow>
            \<exists>hp' m'. r2 = Inr (hp', m') \<and> extends hp1 hp' \<and> rep cc hp' {..<length hp'} m' t'"
        by blast
      show ?thesis
      proof (cases "runOps hk cc ss t1 ops")
        case e: (Inl e)
        with spec2 r2 r1 r1' Inr OpDelete show ?thesis by simp
      next
        case t': (Inr t')
        with spec2 obtain hp' m' where "r2 = Inr (hp', m')" "extends hp1 hp'"
          "rep cc hp' {..<length hp'} m' t'" by auto
        with r2 r1 r1' Inr OpDelete t' extends_trans [OF ext1] show ?thesis
          by (auto simp del: rep.simps)
      qed
    qed
  qed
qed

lemma built_heap_refines:
  "\<exists>r. runOpsH hk cc ss (initHeap cc) NewStringMapH ops = Some r \<and>
       (case runOps hk cc ss NewStringMap ops of
          Inl e \<Rightarrow> r = Inl e
        | Inr t \<Rightarrow>
            \<exists>hp m. r = Inr (hp, m) \<and> sentinelOK cc hp \<and> rep cc hp {..<length hp} m t)"
proof -
  have ok: "sentinelOK cc (initHeap cc)"
    by (simp add: sentinelOK_def initHeap_def nilMap_def)
  have r: "rep cc (initHeap cc) {..<length (initHeap cc)} NewStringMapH NewStringMap"
    by (simp add: NewStringMapH_def NewStringMap_def)
  from runOpsH_refines [OF ok r, of hk ss ops] obtain r1 where
    r1: "runOpsH hk cc ss (initHeap cc) NewStringMapH ops = Some r1"
    and spec: "case runOps hk cc ss NewStringMap ops of
          Inl e \<Rightarrow> r1 = Inl e
        | Inr t' \<Rightarrow>
            \<exists>hp' m'. r1 = Inr (hp', m') \<and> extends (initHeap cc) hp' \<and>
              rep cc hp' {..<length hp'} m' t'"
    by blast
  show ?thesis
  proof (cases "runOps hk cc ss NewStringMap ops")
    case (Inl e)
    with spec r1 show ?thesis by simp
  next
    case (Inr t)
    with spec obtain hp m where "r1 = Inr (hp, m)" "extends (initHeap cc) hp"
      "rep cc hp {..<length hp} m t" by auto
    with r1 Inr sentinelOK_extends [OF ok] show ?thesis by (auto simp del: rep.simps)
  qed
qed

section \<open>The claims\<close>

lemma exampleMap_built: "runOps sampleHashKey 4 2 NewStringMap exampleOps = Inr exampleMap"
  by code_simp

lemma exampleMap_Keys: "Keys exampleMap = Inr [''a'', ''e'', ''i'', ''b'', ''c'']"
  by code_simp

text \<open>
  Claim C1. For a map \<open>m\<close> built from the empty map by \<open>Set\<close> and \<open>Delete\<close>, and a key
  \<open>k\<close> whose digest collides with no other key of \<open>m\<close>, \<open>Set m k v\<close> returns a map, and
  \<open>Lookup\<close> of \<open>k\<close> in that map returns \<open>(v, true)\<close>.
\<close>

theorem Lookup_after_Set:
  assumes "0 < childCount"
    and "runOps hashKey childCount shiftSize NewStringMap ops = Inr m"
    and "Keys m = Inr ks"
    and "\<forall>k'\<in>set ks. hashKey k' = hashKey k \<longrightarrow> k' = k"
  shows "\<exists>m'. Set hashKey childCount shiftSize m k v = Inr m' \<and>
              Lookup hashKey childCount shiftSize m' k = Inr (v, True)"
proof -
  from built_invar [OF assms(1,2)] have inv: "invar hashKey childCount shiftSize 0 m" .
  from Keys_invar [OF inv] assms(3) have ks: "ks = keysOf m" by simp
  from Set_invar [OF assms(1) inv, of k v] assms(4) obtain m' where
    s: "Set hashKey childCount shiftSize m k v = Inr m'" unfolding ks by blast
  then have "setLowLevel childCount shiftSize m (hashKey k) (hashKey k) k v = Inr m'"
    by (simp add: Set_def Let_def)
  from lookup_setLowLevel [OF this] have "Lookup hashKey childCount shiftSize m' k = Inr (v, True)"
    by (simp add: Lookup_def Let_def)
  with s show ?thesis by blast
qed

theorem Lookup_after_Set_witness:
  "Set sampleHashKey 4 2 exampleMap ''m'' ''13'' =
     Inr (Node 6 97 ''a'' ''1''
        [NilMap,
         Node 3 101 ''e'' ''5''
          [NilMap, NilMap,
           Node 1 105 ''i'' ''9'' [NilMap, NilMap, NilMap, NilMap],
           Node 1 109 ''m'' ''13'' [NilMap, NilMap, NilMap, NilMap]],
         Node 1 98 ''b'' ''2'' [NilMap, NilMap, NilMap, NilMap],
         Node 1 99 ''c'' ''3'' [NilMap, NilMap, NilMap, NilMap]]) \<and>
   Lookup sampleHashKey 4 2
     (Node 6 97 ''a'' ''1''
        [NilMap,
         Node 3 101 ''e'' ''5''
          [NilMap, NilMap,
           Node 1 105 ''i'' ''9'' [NilMap, NilMap, NilMap, NilMap],
           Node 1 109 ''m'' ''13'' [NilMap, NilMap, NilMap, NilMap]],
         Node 1 98 ''b'' ''2'' [NilMap, NilMap, NilMap, NilMap],
         Node 1 99 ''c'' ''3'' [NilMap, NilMap, NilMap, NilMap]]) ''m'' = Inr (''13'', True)"
proof -
  have cc: "0 < (4::nat)" by simp
  have cf: "\<forall>k'\<in>set [''a'', ''e'', ''i'', ''b'', ''c''].
      sampleHashKey k' = sampleHashKey ''m'' \<longrightarrow> k' = ''m''"
    by code_simp
  have s: "Set sampleHashKey 4 2 exampleMap ''m'' ''13'' =
     Inr (Node 6 97 ''a'' ''1''
        [NilMap,
         Node 3 101 ''e'' ''5''
          [NilMap, NilMap,
           Node 1 105 ''i'' ''9'' [NilMap, NilMap, NilMap, NilMap],
           Node 1 109 ''m'' ''13'' [NilMap, NilMap, NilMap, NilMap]],
         Node 1 98 ''b'' ''2'' [NilMap, NilMap, NilMap, NilMap],
         Node 1 99 ''c'' ''3'' [NilMap, NilMap, NilMap, NilMap]])"
    by code_simp
  from Lookup_after_Set [OF cc exampleMap_built exampleMap_Keys cf, of "''13''"] s
  show ?thesis by simp
qed

text \<open>
  Claim C2. For a built map \<open>m\<close> and a key \<open>k\<close> that collides with no other key of \<open>m\<close>,
  \<open>Set m k v\<close> returns a map whose \<open>Size\<close> is \<open>Size m\<close> when \<open>k\<close> is already a key of \<open>m\<close>
  and \<open>Size m + 1\<close> when it is not. Consequently, setting \<open>n\<close> distinct keys with pairwise
  distinct digests, starting from the empty map, gives a map of \<open>Size\<close> \<open>n\<close>.
\<close>

theorem Size_after_Set:
  assumes "0 < childCount"
    and "runOps hashKey childCount shiftSize NewStringMap ops = Inr m"
    and "Keys m = Inr ks"
    and "\<forall>k'\<in>set ks. hashKey k' = hashKey k \<longrightarrow> k' = k"
    and "distinct (map fst kvs)"
    and "inj_on hashKey (fst ` set kvs)"
  shows "(\<exists>m'. Set hashKey childCount shiftSize m k v = Inr m' \<and>
               Size m' = (if k \<in> set ks then Size m else Size m + 1)) \<and>
         (\<exists>m'. runOps hashKey childCount shiftSize NewStringMap (map (\<lambda>(k, v). OpSet k v) kvs) = Inr m' \<and>
               Size m' = int (length kvs))"
proof -
  from built_invar [OF assms(1,2)] have inv: "invar hashKey childCount shiftSize 0 m" .
  from Keys_invar [OF inv] assms(3) have ks: "ks = keysOf m" by simp
  from Set_Size_invar [OF assms(1) inv, of k v] assms(4)
  have 1: "\<exists>m'. Set hashKey childCount shiftSize m k v = Inr m' \<and>
               Size m' = (if k \<in> set ks then Size m else Size m + 1)"
    unfolding ks by blast
  have "invar hashKey childCount shiftSize 0 NilMap" by simp
  from Set_many [OF assms(1) this assms(5), of ] assms(6)
  have 2: "\<exists>m'. runOps hashKey childCount shiftSize NewStringMap (map (\<lambda>(k, v). OpSet k v) kvs) = Inr m' \<and>
               Size m' = int (length kvs)"
    by (simp add: keysOf_def NewStringMap_def)
  from 1 2 show ?thesis by blast
qed

theorem Size_after_Set_witness:
  "runOps sampleHashKey 4 2 NewStringMap exampleOps = Inr exampleMap \<and>
   Keys exampleMap = Inr [''a'', ''e'', ''i'', ''b'', ''c''] \<and>
   (\<exists>m'. Set sampleHashKey 4 2 exampleMap ''m'' ''13'' = Inr m' \<and> Size m' = 6) \<and>
   (\<exists>m'. Set sampleHashKey 4 2 exampleMap ''b'' ''22'' = Inr m' \<and> Size m' = 5) \<and>
   (\<exists>m'. runOps sampleHashKey 4 2 NewStringMap
            [OpSet ''x'' ''1'', OpSet ''y'' ''2'', OpSet ''z'' ''3''] = Inr m' \<and> Size m' = 3)"
proof -
  have cc: "0 < (4::nat)" by simp
  have cf1: "\<forall>k'\<in>set [''a'', ''e'', ''i'', ''b'', ''c''].
      sampleHashKey k' = sampleHashKey ''m'' \<longrightarrow> k' = ''m''"
    by code_simp
  have cf2: "\<forall>k'\<in>set [''a'', ''e'', ''i'', ''b'', ''c''].
      sampleHashKey k' = sampleHashKey ''b'' \<longrightarrow> k' = ''b''"
    by code_simp
  have d: "distinct (map fst [(''x'', ''1''), (''y'', ''2''), (''z'', ''3'')])" by simp
  have i: "inj_on sampleHashKey (fst ` set [(''x'', ''1''), (''y'', ''2''), (''z'', ''3'')])"
    by (simp add: sampleHashKey_def)
  have sz: "Size exampleMap = 5" by (simp add: exampleMap_def)
  from Size_after_Set [OF cc exampleMap_built exampleMap_Keys cf1 d i, of "''13''"]
    Size_after_Set [OF cc exampleMap_built exampleMap_Keys cf2 d i, of "''22''"]
    exampleMap_built exampleMap_Keys sz
  show ?thesis by simp
qed

text \<open>
  Claim C3. For a built map \<open>m\<close> and a key \<open>k\<close> of \<open>m\<close>, \<open>Delete m k\<close> returns a map whose
  \<open>Size\<close> is \<open>Size m - 1\<close> and in which \<open>Lookup\<close> of \<open>k\<close> reports \<open>found = false\<close>.
\<close>

theorem Delete_present:
  assumes "0 < childCount"
    and "runOps hashKey childCount shiftSize NewStringMap ops = Inr m"
    and "Keys m = Inr ks"
    and "k \<in> set ks"
  shows "\<exists>m'. Delete hashKey childCount shiftSize m k = Inr m' \<and>
              Size m' = Size m - 1 \<and>
              Lookup hashKey childCount shiftSize m' k = Inr ([], False)"
proof -
  from built_invar [OF assms(1,2)] have inv: "invar hashKey childCount shiftSize 0 m" .
  from Keys_invar [OF inv] assms(3) have ks: "ks = keysOf m" by simp
  from Delete_invar [OF assms(1) inv, of k] obtain m' where
    d: "Delete hashKey childCount shiftSize m k = Inr m'"
    and inv': "invar hashKey childCount shiftSize 0 m'"
    and n: "set (nodes m') = {n \<in> set (nodes m). fst n \<noteq> hashKey k}"
    by blast
  from hashes_after [OF n] have h: "hashes m' = hashes m - {hashKey k}" .
  from assms(4) have hin: "hashKey k \<in> hashes m"
    unfolding keysOf_hashes [OF inv] ks by simp
  then have "0 < card (hashes m)" by (auto simp: card_gt_0_iff)
  with hin have "Size m' = Size m - 1"
    unfolding invar_Size_card [OF inv'] invar_Size_card [OF inv] h
    by (simp add: card_Diff_singleton_if of_nat_diff)
  moreover have "valueOf m' (hashKey k) = None"
    unfolding valueOf_None_iff h by simp
  then have "Lookup hashKey childCount shiftSize m' k = Inr ([], False)"
    by (simp add: Lookup_invar [OF assms(1) inv'])
  ultimately show ?thesis using d by blast
qed

theorem Delete_present_witness:
  "runOps sampleHashKey 4 2 NewStringMap exampleOps = Inr exampleMap \<and>
   Keys exampleMap = Inr [''a'', ''e'', ''i'', ''b'', ''c''] \<and>
   Delete sampleHashKey 4 2 exampleMap ''a'' = Inr exampleMapDeleted \<and>
   Size exampleMapDeleted = 4 \<and>
   Lookup sampleHashKey 4 2 exampleMapDeleted ''a'' = Inr ([], False)"
proof -
  have cc: "0 < (4::nat)" by simp
  have k: "''a'' \<in> set [''a'', ''e'', ''i'', ''b'', ''c'']" by simp
  have d: "Delete sampleHashKey 4 2 exampleMap ''a'' = Inr exampleMapDeleted" by code_simp
  have sz: "Size exampleMap = 5" by (simp add: exampleMap_def)
  from Delete_present [OF cc exampleMap_built exampleMap_Keys k] d sz
    exampleMap_built exampleMap_Keys
  show ?thesis by simp
qed

subsection \<open>Deleting a key that is not in the map\<close>

text \<open>
  Every hash function from strings to 64 bits sends two different keys to one hash.
\<close>

lemma hashKey_collides:
  fixes hashKey :: "string \<Rightarrow> 64 word"
  shows "\<exists>k1 k2. k1 \<noteq> k2 \<and> hashKey k1 = hashKey k2"
proof (rule ccontr)
  assume "\<not> ?thesis"
  then have "inj hashKey" by (auto simp: inj_on_def)
  moreover have "finite (range hashKey)" by (rule finite_subset [OF subset_UNIV]) simp
  ultimately have "finite (UNIV :: string set)" by (rule finite_imageD [rotated])
  then show False by (simp add: infinite_UNIV_listI)
qed

text \<open>
  Setting one key in the empty map gives a built map with that key alone.
\<close>

lemma Set_single_built:
  assumes "0 < childCount"
  shows "\<exists>m. runOps hashKey childCount shiftSize NewStringMap [OpSet k1 v] = Inr m \<and>
             Keys m = Inr [k1]"
proof -
  have inv0: "invar hashKey childCount shiftSize 0 NewStringMap" by (simp add: NewStringMap_def)
  have "\<forall>k'\<in>set (keysOf NewStringMap). hashKey k' = hashKey k1 \<longrightarrow> k' = k1"
    by (simp add: NewStringMap_def keysOf_def)
  from Set_invar [OF assms inv0 this, of v] obtain m where
    s: "Set hashKey childCount shiftSize NewStringMap k1 v = Inr m"
    and inv: "invar hashKey childCount shiftSize 0 m"
    and n: "set (nodes m) = {n \<in> set (nodes NewStringMap). fst n \<noteq> hashKey k1} \<union> {(hashKey k1, k1, v)}"
    by blast
  from n have n1: "set (nodes m) = {(hashKey k1, k1, v)}" by (simp add: NewStringMap_def)
  from inv_distinct [OF inv] have "distinct (nodes m)" by (simp add: distinct_map)
  from distinct_card [OF this] n1 have "length (nodes m) = Suc 0" by simp
  then obtain x where x: "nodes m = [x]" by (auto simp: length_Suc_conv)
  with n1 have "nodes m = [(hashKey k1, k1, v)]" by simp
  then have "keysOf m = [k1]" by (simp add: keysOf_def)
  with Keys_invar [OF inv] have "Keys m = Inr [k1]" by simp
  with s show ?thesis by simp
qed

text \<open>
  For a key \<open>k\<close> that is not in a built map \<open>m\<close> and has the hash of none of its keys,
  \<open>Delete m k\<close> returns \<open>m\<close> itself: same \<open>Size\<close>, same \<open>Keys\<close>, same \<open>Lookup\<close> results.
\<close>

lemma Delete_absent_no_collision:
  assumes "0 < childCount"
    and "runOps hashKey childCount shiftSize NewStringMap ops = Inr m"
    and "Keys m = Inr ks"
    and "k \<notin> set ks"
    and "\<forall>k'\<in>set ks. hashKey k' = hashKey k \<longrightarrow> k' = k"
  shows "\<exists>m'. Delete hashKey childCount shiftSize m k = Inr m' \<and>
              Size m' = Size m \<and> Keys m' = Keys m \<and>
              (\<forall>k'. Lookup hashKey childCount shiftSize m' k' =
                    Lookup hashKey childCount shiftSize m k') \<and>
              m' = m"
proof -
  from built_invar [OF assms(1,2)] have inv: "invar hashKey childCount shiftSize 0 m" .
  from Keys_invar [OF inv] assms(3) have ks: "ks = keysOf m" by simp
  from assms(4,5) have "hashKey k \<notin> hashes m"
    unfolding keysOf_hashes [OF inv] ks by auto
  with Delete_invar [OF assms(1) inv, of k]
  have "Delete hashKey childCount shiftSize m k = Inr m" by auto
  then show ?thesis by simp
qed

lemma Delete_absent_no_collision_example:
  "runOps sampleHashKey 4 2 NewStringMap exampleOps = Inr exampleMap \<and>
   Keys exampleMap = Inr [''a'', ''e'', ''i'', ''b'', ''c''] \<and>
   Delete sampleHashKey 4 2 exampleMap ''z'' = Inr exampleMap"
proof -
  have cc: "0 < (4::nat)" by simp
  have k: "''z'' \<notin> set [''a'', ''e'', ''i'', ''b'', ''c'']" by simp
  have cf: "\<forall>k'\<in>set [''a'', ''e'', ''i'', ''b'', ''c''].
      sampleHashKey k' = sampleHashKey ''z'' \<longrightarrow> k' = ''z''"
    by code_simp
  from Delete_absent_no_collision [OF cc exampleMap_built exampleMap_Keys k cf]
    exampleMap_built exampleMap_Keys
  show ?thesis by simp
qed

text \<open>
  For a key \<open>k\<close> that is not in the map but has the hash of a key \<open>k1\<close> that is,
  \<open>deleteLowLevel\<close> stops at the node of \<open>k1\<close>, where the hashes are equal, and removes
  it without comparing the keys: \<open>Delete m k\<close> returns a map one smaller in which \<open>k1\<close> is
  no longer found. (\<open>setLowLevel\<close> compares the keys at such a node and panics.)
\<close>

lemma Delete_absent_collision:
  assumes "0 < childCount"
    and "runOps hashKey childCount shiftSize NewStringMap ops = Inr m"
    and "Keys m = Inr ks"
    and "k1 \<in> set ks"
    and "k \<noteq> k1"
    and "hashKey k = hashKey k1"
  shows "k \<notin> set ks \<and>
         (\<exists>m'. Delete hashKey childCount shiftSize m k = Inr m' \<and>
               Size m' = Size m - 1 \<and>
               Lookup hashKey childCount shiftSize m k1 \<noteq> Inr ([], False) \<and>
               Lookup hashKey childCount shiftSize m' k1 = Inr ([], False))"
proof -
  from built_invar [OF assms(1,2)] have inv: "invar hashKey childCount shiftSize 0 m" .
  from Keys_invar [OF inv] assms(3) have ks: "ks = keysOf m" by simp
  have "k \<notin> set ks"
  proof
    assume "k \<in> set ks"
    from keysOf_hash [OF inv] this assms(4) obtain v v1 where
      n: "(hashKey k, k, v) \<in> set (nodes m)" "(hashKey k1, k1, v1) \<in> set (nodes m)"
      unfolding ks by blast
    from inv_distinct [OF inv] have "inj_on fst (set (nodes m))" by (simp add: distinct_map)
    from inj_onD [OF this _ n] assms(6) have "k = k1" by simp
    with assms(5) show False by simp
  qed
  moreover
  from Delete_invar [OF assms(1) inv, of k] obtain m' where
    d: "Delete hashKey childCount shiftSize m k = Inr m'"
    and inv': "invar hashKey childCount shiftSize 0 m'"
    and n: "set (nodes m') = {n \<in> set (nodes m). fst n \<noteq> hashKey k}"
    by blast
  from hashes_after [OF n] have h: "hashes m' = hashes m - {hashKey k}" .
  from assms(4,6) have hin: "hashKey k \<in> hashes m"
    unfolding keysOf_hashes [OF inv] ks by auto
  then have "0 < card (hashes m)" by (auto simp: card_gt_0_iff)
  with hin have sz: "Size m' = Size m - 1"
    unfolding invar_Size_card [OF inv'] invar_Size_card [OF inv] h
    by (simp add: card_Diff_singleton_if of_nat_diff)
  have "valueOf m' (hashKey k1) = None"
    unfolding valueOf_None_iff h using assms(6) by simp
  then have l': "Lookup hashKey childCount shiftSize m' k1 = Inr ([], False)"
    by (simp add: Lookup_invar [OF assms(1) inv'])
  from hin assms(6) have "valueOf m (hashKey k1) \<noteq> None"
    unfolding valueOf_None_iff by simp
  then have l: "Lookup hashKey childCount shiftSize m k1 \<noteq> Inr ([], False)"
    by (auto simp: Lookup_invar [OF assms(1) inv])
  from d sz l l' have "\<exists>m'. Delete hashKey childCount shiftSize m k = Inr m' \<and>
               Size m' = Size m - 1 \<and>
               Lookup hashKey childCount shiftSize m k1 \<noteq> Inr ([], False) \<and>
               Lookup hashKey childCount shiftSize m' k1 = Inr ([], False)"
    by blast
  ultimately show ?thesis by blast
qed

text \<open>
  Whatever the hash function is, there are such a map and such a key: a built map and a key
  that is not in it, the deletion of which makes the map one smaller.
\<close>

lemma Delete_absent_collision_exists:
  fixes hashKey :: "string \<Rightarrow> 64 word"
  assumes "0 < childCount"
  shows "\<exists>k1 v k m m'.
           runOps hashKey childCount shiftSize NewStringMap [OpSet k1 v] = Inr m \<and>
           Keys m = Inr [k1] \<and> k \<notin> set [k1] \<and>
           Delete hashKey childCount shiftSize m k = Inr m' \<and>
           Size m' = Size m - 1"
proof -
  from hashKey_collides [of hashKey] obtain k1 k where c: "k \<noteq> k1" "hashKey k = hashKey k1"
    by metis
  from Set_single_built [OF assms, of hashKey shiftSize k1 "[]"] obtain m where
    b: "runOps hashKey childCount shiftSize NewStringMap [OpSet k1 []] = Inr m"
    and ks: "Keys m = Inr [k1]" by blast
  have "k1 \<in> set [k1]" by simp
  from Delete_absent_collision [OF assms b ks this c] b ks show ?thesis by blast
qed

text \<open>
  Claim C4. The claim: for a map \<open>m\<close> and a key \<open>k\<close> that is not in \<open>m\<close>, \<open>Delete m k\<close> returns
  a map with the \<open>Size\<close> and the content of \<open>m\<close>. The code does not do this for every such
  key. With the sample hash, \<open>''ab''\<close> and \<open>''ba''\<close> have the same hash. In the map that holds
  \<open>''ab''\<close> alone, \<open>''ba''\<close> is not a key, and deleting it returns the empty map: \<open>Size\<close> goes
  from \<open>1\<close> to \<open>0\<close> and \<open>''ab''\<close> is no longer found. In the map with the six keys
  \<open>a, e, i, b, c, ab\<close>, whose hashes are pairwise different, deleting \<open>''ba''\<close> returns the
  map with the five keys \<open>a, e, i, b, c\<close>: \<open>Size\<close> goes from \<open>6\<close> to \<open>5\<close>.
\<close>

theorem Delete_absent_colliding_key:
  "runOps sampleHashKey 4 2 NewStringMap [OpSet ''ab'' ''x''] = Inr exampleMapAB \<and>
   Keys exampleMapAB = Inr [''ab''] \<and>
   ''ba'' \<notin> set [''ab''] \<and>
   Delete sampleHashKey 4 2 exampleMapAB ''ba'' = Inr NilMap \<and>
   Size exampleMapAB = 1 \<and> Size NilMap = 0 \<and>
   Lookup sampleHashKey 4 2 exampleMapAB ''ab'' = Inr (''x'', True) \<and>
   Lookup sampleHashKey 4 2 NilMap ''ab'' = Inr ([], False) \<and>
   runOps sampleHashKey 4 2 NewStringMap (exampleOps @ [OpSet ''ab'' ''x'']) = Inr exampleMapSix \<and>
   Keys exampleMapSix = Inr [''a'', ''e'', ''i'', ''b'', ''c'', ''ab''] \<and>
   distinct (map sampleHashKey [''a'', ''e'', ''i'', ''b'', ''c'', ''ab'']) \<and>
   ''ba'' \<notin> set [''a'', ''e'', ''i'', ''b'', ''c'', ''ab''] \<and>
   Delete sampleHashKey 4 2 exampleMapSix ''ba'' = Inr exampleMap \<and>
   Size exampleMapSix = 6 \<and> Size exampleMap = 5 \<and>
   Lookup sampleHashKey 4 2 exampleMapSix ''ab'' = Inr (''x'', True) \<and>
   Lookup sampleHashKey 4 2 exampleMap ''ab'' = Inr ([], False)"
proof -
  have "runOps sampleHashKey 4 2 NewStringMap [OpSet ''ab'' ''x''] = Inr exampleMapAB"
    by code_simp
  moreover have "Keys exampleMapAB = Inr [''ab'']" by code_simp
  moreover have "''ba'' \<notin> set [''ab'']" by simp
  moreover have "Delete sampleHashKey 4 2 exampleMapAB ''ba'' = Inr NilMap" by code_simp
  moreover have "Size exampleMapAB = 1 \<and> Size NilMap = 0" by (simp add: exampleMapAB_def)
  moreover have "Lookup sampleHashKey 4 2 exampleMapAB ''ab'' = Inr (''x'', True)" by code_simp
  moreover have "Lookup sampleHashKey 4 2 NilMap ''ab'' = Inr ([], False)" by code_simp
  moreover have "runOps sampleHashKey 4 2 NewStringMap (exampleOps @ [OpSet ''ab'' ''x'']) =
      Inr exampleMapSix"
    by code_simp
  moreover have "Keys exampleMapSix = Inr [''a'', ''e'', ''i'', ''b'', ''c'', ''ab'']"
    by code_simp
  moreover have "distinct (map sampleHashKey [''a'', ''e'', ''i'', ''b'', ''c'', ''ab''])"
    by code_simp
  moreover have "''ba'' \<notin> set [''a'', ''e'', ''i'', ''b'', ''c'', ''ab'']" by simp
  moreover have "Delete sampleHashKey 4 2 exampleMapSix ''ba'' = Inr exampleMap" by code_simp
  moreover have "Size exampleMapSix = 6 \<and> Size exampleMap = 5"
    by (simp add: exampleMapSix_def exampleMap_def)
  moreover have "Lookup sampleHashKey 4 2 exampleMapSix ''ab'' = Inr (''x'', True)" by code_simp
  moreover have "Lookup sampleHashKey 4 2 exampleMap ''ab'' = Inr ([], False)" by code_simp
  ultimately show ?thesis by blast
qed

text \<open>
  Claim C5 (persistence). Let \<open>m1\<close> be a map held in the store \<open>hp\<close> (an address that
  is the root of a tree \<open>t1\<close>), and let \<open>Set\<close> or \<open>Delete\<close> on \<open>m1\<close> return the map \<open>m2\<close>
  and the store \<open>hp'\<close>. Then every cell that existed before the call is unchanged
  (\<open>hp'\<close> extends \<open>hp\<close>); at most one cell per level of \<open>t1\<close>, plus one, has been
  allocated; and \<open>Lookup\<close> of every key, \<open>Size\<close>, \<open>Keys\<close> and \<open>ForEach\<close> with every
  callback give on \<open>m1\<close> in \<open>hp'\<close> what they gave in \<open>hp\<close>.
\<close>

theorem persistence:
  assumes "sentinelOK childCount hp"
    and "rep childCount hp {..<length hp} m1 t1"
    and "SetH hashKey childCount shiftSize hp m1 k v = Some (Inr (hp', m2)) \<or>
         DeleteH hashKey childCount shiftSize hp m1 k = Some (Inr (hp', m2))"
  shows "take (length hp) hp' = hp \<and>
         length hp' \<le> length hp + Suc (height t1) \<and>
         (\<forall>k'. LookupH hashKey childCount shiftSize hp' m1 k' =
               LookupH hashKey childCount shiftSize hp m1 k') \<and>
         SizeH hp' m1 = SizeH hp m1 \<and>
         KeysH hp' m1 = KeysH hp m1 \<and>
         (\<forall>f s. ForEachH hp' m1 f s = ForEachH hp m1 f s)"
proof -
  from write_extends [OF assms] have ext: "extends hp hp'"
    and bnd: "length hp' \<le> length hp + Suc (height t1)" by simp_all
  from sentinelOK_extends [OF assms(1) ext] have ok': "sentinelOK childCount hp'" .
  from rep_extends [OF assms(2) ext] have rep': "rep childCount hp' {..<length hp} m1 t1" .
  have "take (length hp) hp' = hp" using ext by (rule extends_take)
  moreover have "\<forall>k'. LookupH hashKey childCount shiftSize hp' m1 k' =
               LookupH hashKey childCount shiftSize hp m1 k'"
    by (simp add: LookupH_refines [OF ok' rep'] LookupH_refines [OF assms(1,2)])
  moreover have "SizeH hp' m1 = SizeH hp m1"
    by (simp add: rep_Size [OF ok' rep'] rep_Size [OF assms(1,2)])
  moreover have "KeysH hp' m1 = KeysH hp m1"
    by (simp add: KeysH_refines [OF ok' rep'] KeysH_refines [OF assms(1,2)])
  moreover have "\<forall>f s. ForEachH hp' m1 f s = ForEachH hp m1 f s"
    by (simp add: ForEachH_refines [OF ok' rep'] ForEachH_refines [OF assms(1,2)])
  ultimately show ?thesis using bnd by blast
qed

theorem persistence_witness:
  "sentinelOK 4 exampleHeap \<and>
   rep 4 exampleHeap {..<length exampleHeap} 4 exampleTree \<and>
   DeleteH sampleHashKey 4 2 exampleHeap 4 ''a'' = Some (Inr (exampleHeapDeleted, 8)) \<and>
   take (length exampleHeap) exampleHeapDeleted = exampleHeap \<and>
   LookupH sampleHashKey 4 2 exampleHeapDeleted 4 ''a'' = Some (Inr (''1'', True)) \<and>
   LookupH sampleHashKey 4 2 exampleHeapDeleted 8 ''a'' = Some (Inr ([], False)) \<and>
   KeysH exampleHeapDeleted 4 = Some (Inr [''a'', ''e'', ''i'']) \<and>
   KeysH exampleHeapDeleted 8 = Some (Inr [''i'', ''e'']) \<and>
   SetH sampleHashKey 4 2 exampleHeap 4 ''m'' ''13'' = Some (Inr (exampleHeapSet, 7)) \<and>
   take (length exampleHeap) exampleHeapSet = exampleHeap \<and>
   KeysH exampleHeapSet 4 = Some (Inr [''a'', ''e'', ''i'']) \<and>
   KeysH exampleHeapSet 7 = Some (Inr [''a'', ''e'', ''i'', ''m''])"
proof -
  have ok: "sentinelOK 4 exampleHeap"
    by (simp add: sentinelOK_def exampleHeap_def nilMap_def numeral_eq_Suc)
  have r: "rep 4 exampleHeap {..<length exampleHeap} 4 exampleTree"
    by (simp add: exampleHeap_def exampleTree_def nilMap_def numeral_eq_Suc All_less_Suc)
  have d: "DeleteH sampleHashKey 4 2 exampleHeap 4 ''a'' = Some (Inr (exampleHeapDeleted, 8))"
    by code_simp
  have l: "LookupH sampleHashKey 4 2 exampleHeap 4 ''a'' = Some (Inr (''1'', True))"
    by code_simp
  have l2: "LookupH sampleHashKey 4 2 exampleHeapDeleted 8 ''a'' = Some (Inr ([], False))"
    by code_simp
  have k: "KeysH exampleHeap 4 = Some (Inr [''a'', ''e'', ''i''])"
    by code_simp
  have k2: "KeysH exampleHeapDeleted 8 = Some (Inr [''i'', ''e''])"
    by code_simp
  note p = persistence [OF ok r disjI2 [OF d]]
  from p have a1: "take (length exampleHeap) exampleHeapDeleted = exampleHeap"
    by (rule conjunct1)
  from p have a2: "LookupH sampleHashKey 4 2 exampleHeapDeleted 4 ''a'' =
      LookupH sampleHashKey 4 2 exampleHeap 4 ''a''" by blast
  from p have a3: "KeysH exampleHeapDeleted 4 = KeysH exampleHeap 4" by blast
  have s: "SetH sampleHashKey 4 2 exampleHeap 4 ''m'' ''13'' = Some (Inr (exampleHeapSet, 7))"
    by code_simp
  have k3: "KeysH exampleHeapSet 7 = Some (Inr [''a'', ''e'', ''i'', ''m''])"
    by code_simp
  note q = persistence [OF ok r disjI1 [OF s]]
  from q have b1: "take (length exampleHeap) exampleHeapSet = exampleHeap"
    by (rule conjunct1)
  from q have b3: "KeysH exampleHeapSet 4 = KeysH exampleHeap 4" by blast
  show ?thesis using ok r d a1 l l2 k k2 s b1 k3 by (simp add: a2 a3 b3)
qed

lemma foldE_collect:
  "foldE (\<lambda>k v s. Inr (s @ [(k, v)])) xs s0 = Inr (s0 @ xs)"
  by (induction xs arbitrary: s0) auto

lemma Lookup_entry_iff:
  assumes "0 < cc" and "invar hk cc ss 0 m"
  shows "(k, v) \<in> set (map snd (nodes m)) \<longleftrightarrow>
         k \<in> set (keysOf m) \<and> Lookup hk cc ss m k = Inr (v, True)"
proof
  assume "(k, v) \<in> set (map snd (nodes m))"
  then obtain h where n: "(h, k, v) \<in> set (nodes m)" by auto
  from inv_hashKey [OF assms(2) n] n have n': "(hk k, k, v) \<in> set (nodes m)" by simp
  then have "valueOf m (hk k) = Some v"
    unfolding valueOf_Some_iff [OF assms(2)] by blast
  moreover from n have "k \<in> set (keysOf m)" by (force simp: keysOf_def)
  ultimately show "k \<in> set (keysOf m) \<and> Lookup hk cc ss m k = Inr (v, True)"
    by (simp add: Lookup_invar [OF assms])
next
  assume a: "k \<in> set (keysOf m) \<and> Lookup hk cc ss m k = Inr (v, True)"
  from keysOf_hash [OF assms(2)] a obtain v' where n: "(hk k, k, v') \<in> set (nodes m)"
    by blast
  from a have "valueOf m (hk k) = Some v"
    by (auto simp: Lookup_invar [OF assms] split: option.splits)
  then obtain k' where n': "(hk k, k', v) \<in> set (nodes m)"
    unfolding valueOf_Some_iff [OF assms(2)] by blast
  from inv_distinct [OF assms(2)] have "inj_on fst (set (nodes m))"
    by (simp add: distinct_map)
  from inj_onD [OF this _ n n'] have "v' = v" by simp
  with n show "(k, v) \<in> set (map snd (nodes m))" by force
qed

text \<open>
  Claim C6. The sentinel has count \<open>0\<close>; every node of a built map has a count equal to
  one plus the sum of the counts of its children (\<open>countInv\<close>); hence \<open>Size\<close>, which
  reads the root's count, is the number of associations that \<open>ForEach\<close> enumerates,
  and their keys are pairwise distinct.
\<close>

theorem count_invariant:
  assumes "0 < childCount"
    and "runOps hashKey childCount shiftSize NewStringMap ops = Inr m"
  shows "Size NilMap = 0 \<and> countInv m \<and>
         (\<exists>kvs. ForEach m (\<lambda>k v s. Inr (s @ [(k, v)])) [] = Inr kvs \<and>
                distinct (map fst kvs) \<and> Size m = int (length kvs))"
proof -
  from built_invar [OF assms(1,2)] have inv: "invar hashKey childCount shiftSize 0 m" .
  have "ForEach m (\<lambda>k v s. Inr (s @ [(k, v)])) [] = Inr (map snd (nodes m))"
    by (simp add: ForEach_foldE foldE_collect)
  moreover have "distinct (map fst (map snd (nodes m)))"
    using keysOf_distinct [OF inv] by (simp add: keysOf_def o_def split_def)
  moreover have "Size m = int (length (map snd (nodes m)))"
    using inv_Size [OF inv] by simp
  ultimately show ?thesis using invar_countInv [OF inv] by simp
qed

theorem count_invariant_witness:
  "runOps sampleHashKey 4 2 NewStringMap exampleOps = Inr exampleMap \<and>
   countInv exampleMap \<and>
   ForEach exampleMap (\<lambda>k v s. Inr (s @ [(k, v)])) [] =
     Inr [(''a'', ''1''), (''e'', ''5''), (''i'', ''9''), (''b'', ''2''), (''c'', ''3'')] \<and>
   Size exampleMap = 5"
proof -
  have cc: "0 < (4::nat)" by simp
  have f: "ForEach exampleMap (\<lambda>k v s. Inr (s @ [(k, v)])) [] =
     Inr [(''a'', ''1''), (''e'', ''5''), (''i'', ''9''), (''b'', ''2''), (''c'', ''3'')]"
    by (simp add: exampleMap_def)
  from count_invariant [OF cc exampleMap_built] f exampleMap_built
  show ?thesis by simp
qed

text \<open>
  Claim C7. For a built map \<open>m\<close>, \<open>Keys m\<close> returns a list of length \<open>Size m\<close> without
  duplicates. \<open>ForEach\<close> calls its callback on a sequence \<open>kvs\<close> of pairs, in order, whose
  keys are exactly that list: so every association of \<open>m\<close> (a key of \<open>m\<close> with the value
  \<open>Lookup\<close> finds for it) is visited exactly once.
\<close>

theorem Keys_distinct:
  assumes "0 < childCount"
    and "runOps hashKey childCount shiftSize NewStringMap ops = Inr m"
  shows "\<exists>ks kvs. Keys m = Inr ks \<and> int (length ks) = Size m \<and> distinct ks \<and>
           (\<forall>f s. ForEach m f s = foldE f kvs s) \<and> map fst kvs = ks \<and>
           (\<forall>k v. (k, v) \<in> set kvs \<longleftrightarrow>
                  k \<in> set ks \<and> Lookup hashKey childCount shiftSize m k = Inr (v, True))"
proof -
  from built_invar [OF assms(1,2)] have inv: "invar hashKey childCount shiftSize 0 m" .
  have "Keys m = Inr (keysOf m)" using inv by (rule Keys_invar)
  moreover have "int (length (keysOf m)) = Size m"
    using inv_Size [OF inv] by (simp add: keysOf_def)
  moreover have "distinct (keysOf m)" using inv by (rule keysOf_distinct)
  moreover have "\<forall>f s. ForEach m f s = foldE f (map snd (nodes m)) s"
    by (simp add: ForEach_foldE)
  moreover have "map fst (map snd (nodes m)) = keysOf m"
    by (simp add: keysOf_def o_def split_def)
  moreover have "\<forall>k v. (k, v) \<in> set (map snd (nodes m)) \<longleftrightarrow>
      k \<in> set (keysOf m) \<and> Lookup hashKey childCount shiftSize m k = Inr (v, True)"
    using Lookup_entry_iff [OF assms(1) inv] by blast
  ultimately show ?thesis by blast
qed

theorem Keys_distinct_witness:
  "runOps sampleHashKey 4 2 NewStringMap exampleOps = Inr exampleMap \<and>
   Keys exampleMap = Inr [''a'', ''e'', ''i'', ''b'', ''c''] \<and>
   int (length [''a'', ''e'', ''i'', ''b'', ''c'']) = Size exampleMap \<and>
   distinct [''a'', ''e'', ''i'', ''b'', ''c'']"
proof -
  have cc: "0 < (4::nat)" by simp
  from Keys_distinct [OF cc exampleMap_built] exampleMap_Keys exampleMap_built
  show ?thesis by auto
qed

text \<open>
  Claim C8. For a built map \<open>m\<close> that has the key \<open>k1\<close>, \<open>Set m k2 v\<close> with a different
  key \<open>k2\<close> of the same digest does not return a map: it raises the collision panic,
  which carries the two keys.
\<close>

theorem Set_collision:
  assumes "0 < childCount"
    and "runOps hashKey childCount shiftSize NewStringMap ops = Inr m"
    and "Keys m = Inr ks"
    and "k1 \<in> set ks"
    and "k2 \<noteq> k1"
    and "hashKey k2 = hashKey k1"
  shows "Set hashKey childCount shiftSize m k2 v = Inl (HashCollision k1 k2)"
proof -
  from built_invar [OF assms(1,2)] have inv: "invar hashKey childCount shiftSize 0 m" .
  from Keys_invar [OF inv] assms(3) have ks: "ks = keysOf m" by simp
  from keysOf_hash [OF inv] assms(4) obtain v1 where
    "(hashKey k1, k1, v1) \<in> set (nodes m)" unfolding ks by blast
  then have "(hashKey k2, k1, v1) \<in> set (nodes m)" using assms(6) by simp
  from setLowLevel_collision [OF assms(1) inv this, of k2 v] assms(5)
  show ?thesis by (simp add: Set_def Let_def)
qed

theorem Set_collision_witness:
  "runOps sampleHashKey 4 2 NewStringMap (exampleOps @ [OpSet ''ab'' ''x'']) =
     Inr (Node 6 97 ''a'' ''1''
       [NilMap,
        Node 2 101 ''e'' ''5''
          [NilMap, NilMap, Node 1 105 ''i'' ''9'' [NilMap, NilMap, NilMap, NilMap], NilMap],
        Node 1 98 ''b'' ''2'' [NilMap, NilMap, NilMap, NilMap],
        Node 2 99 ''c'' ''3''
          [Node 1 195 ''ab'' ''x'' [NilMap, NilMap, NilMap, NilMap], NilMap, NilMap, NilMap]]) \<and>
   Set sampleHashKey 4 2
     (Node 6 97 ''a'' ''1''
       [NilMap,
        Node 2 101 ''e'' ''5''
          [NilMap, NilMap, Node 1 105 ''i'' ''9'' [NilMap, NilMap, NilMap, NilMap], NilMap],
        Node 1 98 ''b'' ''2'' [NilMap, NilMap, NilMap, NilMap],
        Node 2 99 ''c'' ''3''
          [Node 1 195 ''ab'' ''x'' [NilMap, NilMap, NilMap, NilMap], NilMap, NilMap, NilMap]])
     ''ba'' ''y'' = Inl (HashCollision ''ab'' ''ba'')"
proof -
  let ?m = "Node 6 97 ''a'' ''1''
       [NilMap,
        Node 2 101 ''e'' ''5''
          [NilMap, NilMap, Node 1 105 ''i'' ''9'' [NilMap, NilMap, NilMap, NilMap], NilMap],
        Node 1 98 ''b'' ''2'' [NilMap, NilMap, NilMap, NilMap],
        Node 2 99 ''c'' ''3''
          [Node 1 195 ''ab'' ''x'' [NilMap, NilMap, NilMap, NilMap], NilMap, NilMap, NilMap]]"
  have cc: "0 < (4::nat)" by simp
  have b: "runOps sampleHashKey 4 2 NewStringMap (exampleOps @ [OpSet ''ab'' ''x'']) = Inr ?m"
    by code_simp
  have ks: "Keys ?m = Inr [''a'', ''e'', ''i'', ''b'', ''c'', ''ab'']" by code_simp
  have k1: "''ab'' \<in> set [''a'', ''e'', ''i'', ''b'', ''c'', ''ab'']" by simp
  have ne: "''ba'' \<noteq> ''ab''" by simp
  have eq: "sampleHashKey ''ba'' = sampleHashKey ''ab''" by (simp add: sampleHashKey_def)
  from Set_collision [OF cc b ks k1 ne eq, of "''y''"] b show ?thesis by simp
qed

text \<open>
  Claim C9. \<open>deleteLeftmost\<close> of a leaf (count \<open>1\<close>) returns the leaf itself and the
  sentinel as the remaining tree. A node that is not a leaf and satisfies the count
  invariant has a child that is not the sentinel, and \<open>deleteLeftmost\<close> returns a pair
  for it: the panic after the scan of the children is not reached. In the store model,
  where the recursion follows pointers, \<open>deleteLeftmostH\<close> returns for every address
  that is the root of a tree, and returns a pair when that tree satisfies the count
  invariant and is not the sentinel. (The sentinel has count \<open>0\<close> and is no node in the
  sense of the invariant; \<open>deleteLowLevel\<close> never passes it on, since the child it chooses
  has the largest count.)
\<close>

theorem deleteLeftmost_total:
  "(isLeaf m \<longrightarrow> deleteLeftmost m = Inr (m, NilMap)) \<and>
   (countInv (Node c h k v cs) \<and> \<not> isLeaf (Node c h k v cs) \<longrightarrow>
      (\<exists>t\<in>set cs. t \<noteq> NilMap) \<and>
      (\<exists>deleted rest. deleteLeftmost (Node c h k v cs) = Inr (deleted, rest))) \<and>
   (sentinelOK childCount hp \<and> rep childCount hp {..<length hp} a t \<longrightarrow>
      (\<exists>r. deleteLeftmostH hp a = Some r \<and>
           (countInv t \<and> t \<noteq> NilMap \<longrightarrow> (\<exists>hp' deleted rest. r = Inr (hp', deleted, rest)))))"
proof -
  have "isLeaf m \<longrightarrow> deleteLeftmost m = Inr (m, NilMap)"
    by (cases m) (auto simp: isLeaf_def)
  moreover have "countInv (Node c h k v cs) \<and> \<not> isLeaf (Node c h k v cs) \<longrightarrow>
      (\<exists>t\<in>set cs. t \<noteq> NilMap) \<and>
      (\<exists>deleted rest. deleteLeftmost (Node c h k v cs) = Inr (deleted, rest))"
    using countInv_not_leaf [of c h k v cs] deleteLeftmost_countInv [of "Node c h k v cs"]
    by blast
  moreover have "\<exists>r. deleteLeftmostH hp a = Some r \<and>
      (countInv t \<and> t \<noteq> NilMap \<longrightarrow> (\<exists>hp' deleted rest. r = Inr (hp', deleted, rest)))"
    if ok: "sentinelOK childCount hp" and r: "rep childCount hp {..<length hp} a t"
  proof -
    from deleteLeftmostH_refines [OF ok r subset_refl] obtain r1 where
      r1: "deleteLeftmostH hp a = Some r1"
      and spec: "case deleteLeftmost t of
              Inl e \<Rightarrow> r1 = Inl e
            | Inr (del, rest) \<Rightarrow>
                \<exists>hp' d' r'. r1 = Inr (hp', d', r') \<and> extends hp hp' \<and>
                  rep childCount hp' ({..<length hp} \<union> {length hp..<length hp'}) d' del \<and>
                  rep childCount hp' ({..<length hp} \<union> {length hp..<length hp'}) r' rest \<and>
                  length hp' \<le> length hp + height t"
      by blast
    have "\<exists>hp' deleted rest. r1 = Inr (hp', deleted, rest)" if "countInv t" "t \<noteq> NilMap"
    proof -
      from deleteLeftmost_countInv [OF that] obtain deleted rest where
        "deleteLeftmost t = Inr (deleted, rest)" by blast
      with spec show ?thesis by auto
    qed
    with r1 show ?thesis by blast
  qed
  ultimately show ?thesis by blast
qed

theorem deleteLeftmost_total_witness:
  "sentinelOK 4 exampleHeap \<and>
   rep 4 exampleHeap {..<length exampleHeap} 4 exampleTree \<and>
   countInv exampleTree \<and>
   (\<exists>hp' deleted rest. deleteLeftmostH exampleHeap 4 = Some (Inr (hp', deleted, rest))) \<and>
   isLeaf (Node 1 98 ''b'' ''2'' [NilMap, NilMap, NilMap, NilMap]) \<and>
   deleteLeftmost (Node 1 98 ''b'' ''2'' [NilMap, NilMap, NilMap, NilMap]) =
     Inr (Node 1 98 ''b'' ''2'' [NilMap, NilMap, NilMap, NilMap], NilMap) \<and>
   countInv exampleMap \<and> \<not> isLeaf exampleMap \<and>
   deleteLeftmost exampleMap =
     Inr (Node 1 105 ''i'' ''9'' [NilMap, NilMap, NilMap, NilMap],
          Node 4 97 ''a'' ''1''
            [NilMap,
             Node 1 101 ''e'' ''5'' [NilMap, NilMap, NilMap, NilMap],
             Node 1 98 ''b'' ''2'' [NilMap, NilMap, NilMap, NilMap],
             Node 1 99 ''c'' ''3'' [NilMap, NilMap, NilMap, NilMap]])"
proof -
  have l: "isLeaf (Node 1 98 ''b'' ''2'' [NilMap, NilMap, NilMap, NilMap])"
    by (simp add: isLeaf_def)
  have c: "countInv exampleMap" by (simp add: exampleMap_def)
  have n: "\<not> isLeaf exampleMap" by (simp add: exampleMap_def isLeaf_def)
  have d: "deleteLeftmost exampleMap =
     Inr (Node 1 105 ''i'' ''9'' [NilMap, NilMap, NilMap, NilMap],
          Node 4 97 ''a'' ''1''
            [NilMap,
             Node 1 101 ''e'' ''5'' [NilMap, NilMap, NilMap, NilMap],
             Node 1 98 ''b'' ''2'' [NilMap, NilMap, NilMap, NilMap],
             Node 1 99 ''c'' ''3'' [NilMap, NilMap, NilMap, NilMap]])"
    by code_simp
  have ok: "sentinelOK 4 exampleHeap"
    by (simp add: sentinelOK_def exampleHeap_def nilMap_def numeral_eq_Suc)
  have r: "rep 4 exampleHeap {..<length exampleHeap} 4 exampleTree"
    by (simp add: exampleHeap_def exampleTree_def nilMap_def numeral_eq_Suc All_less_Suc)
  have ct: "countInv exampleTree" by (simp add: exampleTree_def)
  have nn: "exampleTree \<noteq> NilMap" by (simp add: exampleTree_def)
  note t = deleteLeftmost_total [where m = "Node 1 98 ''b'' ''2'' [NilMap, NilMap, NilMap, NilMap]"
      and childCount = 4 and hp = exampleHeap and a = 4 and t = exampleTree]
  from t [THEN conjunct2, THEN conjunct2] ok r obtain r0 where
    r0: "deleteLeftmostH exampleHeap 4 = Some r0"
    and p: "countInv exampleTree \<and> exampleTree \<noteq> NilMap \<longrightarrow>
            (\<exists>hp' deleted rest. r0 = Inr (hp', deleted, rest))"
    by blast
  from p ct nn r0
  have e: "\<exists>hp' deleted rest. deleteLeftmostH exampleHeap 4 = Some (Inr (hp', deleted, rest))"
    by blast
  from t [THEN conjunct1] l
  have "deleteLeftmost (Node 1 98 ''b'' ''2'' [NilMap, NilMap, NilMap, NilMap]) =
     Inr (Node 1 98 ''b'' ''2'' [NilMap, NilMap, NilMap, NilMap], NilMap)"
    by blast
  with e l c n d ok r ct show ?thesis by blast
qed

subsection \<open>Looking up another key after a deletion\<close>

text \<open>
  For a built map \<open>m\<close>, a key \<open>k\<close> of \<open>m\<close> and a key \<open>k'\<close> whose hash differs from that of
  \<open>k\<close>, \<open>Lookup\<close> of \<open>k'\<close> gives the same result in \<open>Delete m k\<close> as in \<open>m\<close>. This covers
  the case where the deleted node is inner and is replaced by the leftmost node of its
  largest child.
\<close>

lemma Lookup_after_Delete_no_collision:
  assumes "0 < childCount"
    and "runOps hashKey childCount shiftSize NewStringMap ops = Inr m"
    and "Keys m = Inr ks"
    and "k \<in> set ks"
    and "k' \<noteq> k"
    and "hashKey k' = hashKey k \<longrightarrow> k' = k"
  shows "\<exists>m'. Delete hashKey childCount shiftSize m k = Inr m' \<and>
              Lookup hashKey childCount shiftSize m' k' =
              Lookup hashKey childCount shiftSize m k'"
proof -
  from built_invar [OF assms(1,2)] have inv: "invar hashKey childCount shiftSize 0 m" .
  from Delete_invar [OF assms(1) inv, of k] obtain m' where
    d: "Delete hashKey childCount shiftSize m k = Inr m'"
    and inv': "invar hashKey childCount shiftSize 0 m'"
    and n: "set (nodes m') = {n \<in> set (nodes m). fst n \<noteq> hashKey k}"
    by blast
  from assms(5,6) have ne: "hashKey k' \<noteq> hashKey k" by blast
  have "valueOf m' (hashKey k') = valueOf m (hashKey k')"
    by (rule valueOf_eqI [OF inv inv']) (use n ne in auto)
  then have "Lookup hashKey childCount shiftSize m' k' = Lookup hashKey childCount shiftSize m k'"
    by (simp add: Lookup_invar [OF assms(1) inv] Lookup_invar [OF assms(1) inv'])
  with d show ?thesis by blast
qed

lemma Lookup_after_Delete_no_collision_example:
  "runOps sampleHashKey 4 2 NewStringMap exampleOps = Inr exampleMap \<and>
   Keys exampleMap = Inr [''a'', ''e'', ''i'', ''b'', ''c''] \<and>
   Delete sampleHashKey 4 2 exampleMap ''a'' = Inr exampleMapDeleted \<and>
   Lookup sampleHashKey 4 2 exampleMapDeleted ''i'' = Lookup sampleHashKey 4 2 exampleMap ''i'' \<and>
   Lookup sampleHashKey 4 2 exampleMap ''i'' = Inr (''9'', True)"
proof -
  have cc: "0 < (4::nat)" by simp
  have k: "''a'' \<in> set [''a'', ''e'', ''i'', ''b'', ''c'']" by simp
  have ne: "''i'' \<noteq> ''a''" by simp
  have cf: "sampleHashKey ''i'' = sampleHashKey ''a'' \<longrightarrow> ''i'' = ''a''"
    by (simp add: sampleHashKey_def)
  have d: "Delete sampleHashKey 4 2 exampleMap ''a'' = Inr exampleMapDeleted" by code_simp
  have l: "Lookup sampleHashKey 4 2 exampleMap ''i'' = Inr (''9'', True)" by code_simp
  from Lookup_after_Delete_no_collision [OF cc exampleMap_built exampleMap_Keys k ne cf] d l
    exampleMap_built exampleMap_Keys
  show ?thesis by simp
qed

text \<open>
  For a key \<open>k'\<close> that has the hash of a key \<open>k\<close> of the map and is not \<open>k\<close>,
  \<open>lookupLowLevel\<close> stops at the node of \<open>k\<close>, where the hashes are equal, and reports
  its value as found without comparing the keys. So \<open>Lookup\<close> finds \<open>k'\<close>, which is not in
  the map, before \<open>k\<close> is deleted, and does not find it afterwards.
\<close>

lemma Lookup_after_Delete_collision:
  assumes "0 < childCount"
    and "runOps hashKey childCount shiftSize NewStringMap ops = Inr m"
    and "Keys m = Inr ks"
    and "k \<in> set ks"
    and "k' \<noteq> k"
    and "hashKey k' = hashKey k"
  shows "k' \<notin> set ks \<and>
         (\<exists>m' v. Delete hashKey childCount shiftSize m k = Inr m' \<and>
               Lookup hashKey childCount shiftSize m k' = Inr (v, True) \<and>
               Lookup hashKey childCount shiftSize m k = Inr (v, True) \<and>
               Lookup hashKey childCount shiftSize m' k' = Inr ([], False))"
proof -
  from built_invar [OF assms(1,2)] have inv: "invar hashKey childCount shiftSize 0 m" .
  from Keys_invar [OF inv] assms(3) have ks: "ks = keysOf m" by simp
  have "k' \<notin> set ks"
  proof
    assume "k' \<in> set ks"
    from keysOf_hash [OF inv] this assms(4) obtain v v1 where
      n: "(hashKey k', k', v) \<in> set (nodes m)" "(hashKey k, k, v1) \<in> set (nodes m)"
      unfolding ks by blast
    from inv_distinct [OF inv] have "inj_on fst (set (nodes m))" by (simp add: distinct_map)
    from inj_onD [OF this _ n] assms(6) have "k' = k" by simp
    with assms(5) show False by simp
  qed
  moreover
  from Delete_invar [OF assms(1) inv, of k] obtain m' where
    d: "Delete hashKey childCount shiftSize m k = Inr m'"
    and inv': "invar hashKey childCount shiftSize 0 m'"
    and n: "set (nodes m') = {n \<in> set (nodes m). fst n \<noteq> hashKey k}"
    by blast
  from hashes_after [OF n] have h: "hashes m' = hashes m - {hashKey k}" .
  from assms(4) have hin: "hashKey k \<in> hashes m"
    unfolding keysOf_hashes [OF inv] ks by auto
  then obtain v where v: "valueOf m (hashKey k) = Some v"
    using valueOf_None_iff [of m "hashKey k"] by (cases "valueOf m (hashKey k)") auto
  then have l: "Lookup hashKey childCount shiftSize m k = Inr (v, True)"
    by (simp add: Lookup_invar [OF assms(1) inv])
  then have lk': "Lookup hashKey childCount shiftSize m k' = Inr (v, True)"
    using assms(6) by (simp add: Lookup_def)
  have "valueOf m' (hashKey k') = None"
    unfolding valueOf_None_iff h using assms(6) by simp
  then have l': "Lookup hashKey childCount shiftSize m' k' = Inr ([], False)"
    by (simp add: Lookup_invar [OF assms(1) inv'])
  from d l lk' l' have "\<exists>m' v. Delete hashKey childCount shiftSize m k = Inr m' \<and>
               Lookup hashKey childCount shiftSize m k' = Inr (v, True) \<and>
               Lookup hashKey childCount shiftSize m k = Inr (v, True) \<and>
               Lookup hashKey childCount shiftSize m' k' = Inr ([], False)"
    by blast
  ultimately show ?thesis by blast
qed

text \<open>
  Whatever the hash function is, there are a built map, a key \<open>k\<close> of it and another key \<open>k'\<close>
  such that deleting \<open>k\<close> changes the result of \<open>Lookup\<close> for \<open>k'\<close>.
\<close>

lemma Lookup_after_Delete_collision_exists:
  fixes hashKey :: "string \<Rightarrow> 64 word"
  assumes "0 < childCount"
  shows "\<exists>k v k' m m'.
           runOps hashKey childCount shiftSize NewStringMap [OpSet k v] = Inr m \<and>
           Keys m = Inr [k] \<and> k' \<noteq> k \<and>
           Delete hashKey childCount shiftSize m k = Inr m' \<and>
           Lookup hashKey childCount shiftSize m' k' \<noteq>
           Lookup hashKey childCount shiftSize m k'"
proof -
  from hashKey_collides [of hashKey] obtain k k' where c: "k' \<noteq> k" "hashKey k' = hashKey k"
    by metis
  from Set_single_built [OF assms, of hashKey shiftSize k "[]"] obtain m where
    b: "runOps hashKey childCount shiftSize NewStringMap [OpSet k []] = Inr m"
    and ks: "Keys m = Inr [k]" by blast
  have "k \<in> set [k]" by simp
  from Lookup_after_Delete_collision [OF assms b ks this c] obtain m' v where
    "Delete hashKey childCount shiftSize m k = Inr m'"
    "Lookup hashKey childCount shiftSize m k' = Inr (v, True)"
    "Lookup hashKey childCount shiftSize m' k' = Inr ([], False)" by blast
  with b ks c(1) show ?thesis by (intro exI [of _ k] exI [of _ "[]"] exI [of _ k'] exI [of _ m] exI [of _ m']) simp
qed

text \<open>
  Claim C10. The claim: for a map \<open>m\<close>, a key \<open>k\<close> of \<open>m\<close> and every other key \<open>k'\<close>, \<open>Lookup\<close>
  of \<open>k'\<close> gives the same result in \<open>Delete m k\<close> as in \<open>m\<close>. The code does not do this for
  every such \<open>k'\<close>. With the sample hash, in the map that holds \<open>''ab''\<close> alone, \<open>Lookup\<close> of
  the other key \<open>''ba''\<close> returns the value of \<open>''ab''\<close> as found; after \<open>''ab''\<close> is deleted,
  \<open>Lookup\<close> of \<open>''ba''\<close> reports that it is not found.
\<close>

theorem Lookup_after_Delete_colliding_key:
  "runOps sampleHashKey 4 2 NewStringMap [OpSet ''ab'' ''x''] = Inr exampleMapAB \<and>
   Keys exampleMapAB = Inr [''ab''] \<and>
   ''ba'' \<noteq> ''ab'' \<and>
   Delete sampleHashKey 4 2 exampleMapAB ''ab'' = Inr NilMap \<and>
   Lookup sampleHashKey 4 2 exampleMapAB ''ba'' = Inr (''x'', True) \<and>
   Lookup sampleHashKey 4 2 NilMap ''ba'' = Inr ([], False) \<and>
   Lookup sampleHashKey 4 2 NilMap ''ba'' \<noteq> Lookup sampleHashKey 4 2 exampleMapAB ''ba''"
proof -
  have "runOps sampleHashKey 4 2 NewStringMap [OpSet ''ab'' ''x''] = Inr exampleMapAB"
    by code_simp
  moreover have "Keys exampleMapAB = Inr [''ab'']" by code_simp
  moreover have "''ba'' \<noteq> ''ab''" by simp
  moreover have "Delete sampleHashKey 4 2 exampleMapAB ''ab'' = Inr NilMap" by code_simp
  moreover have l1: "Lookup sampleHashKey 4 2 exampleMapAB ''ba'' = Inr (''x'', True)"
    by code_simp
  moreover have l2: "Lookup sampleHashKey 4 2 NilMap ''ba'' = Inr ([], False)" by code_simp
  moreover have "Lookup sampleHashKey 4 2 NilMap ''ba'' \<noteq>
      Lookup sampleHashKey 4 2 exampleMapAB ''ba''"
    unfolding l1 l2 by simp
  ultimately show ?thesis by blast
qed

end
